theory Spec2Isabelle
  imports Complex_Main "HOL-Library.Word"
begin

section \<open>Machine integers and faults\<close>

text \<open>
  The data stored in memory keeps its width: an element of a \<^verbatim>\<open>vector<int>\<close> is a
  32-bit word, a \<^verbatim>\<open>long long\<close> sum is a 64-bit word, both read as two's complement
  by \<^const>\<open>sint\<close>. Loop counters and indices of type \<^verbatim>\<open>int\<close> are HOL integers; every
  operation on them that could leave the range of \<^verbatim>\<open>int\<close> is checked, because signed
  overflow is undefined behaviour in C++.
\<close>

type_synonym int32 = "32 word"
type_synonym int64 = "64 word"

datatype fault =
    Undefined_Behaviour
  | Exception string  \<comment> \<open>an exception derived from \<^verbatim>\<open>std::exception\<close>, with its \<^verbatim>\<open>what()\<close>\<close>

definition INT_MIN :: int where
  "INT_MIN = - (2 ^ 31)"

definition INT_MAX :: int where
  "INT_MAX = 2 ^ 31 - 1"

definition LLONG_MIN :: int where
  "LLONG_MIN = - (2 ^ 63)"

definition LLONG_MAX :: int where
  "LLONG_MAX = 2 ^ 63 - 1"

text \<open>The result of an arithmetic operation on \<^verbatim>\<open>int\<close>: overflow is undefined.\<close>

definition chk_int :: "int \<Rightarrow> fault + int" where
  "chk_int x = (if INT_MIN \<le> x \<and> x \<le> INT_MAX then Inr x else Inl Undefined_Behaviour)"

text \<open>
  Conversions between \<^verbatim>\<open>size_t\<close> (64 bits, unsigned) and \<^verbatim>\<open>int\<close> (32 bits, signed):
  both are modular.
\<close>

definition size_t_of_int :: "int \<Rightarrow> nat" where
  "size_t_of_int x = nat (x mod 2 ^ 64)"

definition int_of_size_t :: "nat \<Rightarrow> int" where
  "int_of_size_t n = (let r = int n mod 2 ^ 32 in if r < 2 ^ 31 then r else r - 2 ^ 32)"

text \<open>\<^verbatim>\<open>sum += value\<close> on a \<^verbatim>\<open>long long\<close>: the sum wraps nowhere, overflow is undefined.\<close>

definition add_ll :: "int64 \<Rightarrow> int64 \<Rightarrow> fault + int64" where
  "add_ll a b =
     (if LLONG_MIN \<le> sint a + sint b \<and> sint a + sint b \<le> LLONG_MAX
      then Inr (a + b) else Inl Undefined_Behaviour)"

section \<open>The calculator\<close>

text \<open>
  What the program prints is kept as a list of events, one per line of output, with the
  numbers the line shows.
\<close>

datatype event =
    Thread_Done int int int   \<comment> \<open>thread id, first index, last index\<close>
  | Validation_Error int      \<comment> \<open>index of the vector whose sum differs\<close>
  | Results_Correct
  | Banner
  | Generating
  | Generated
  | Test_Header int           \<comment> \<open>number of threads of the trial\<close>
  | Time_Line real            \<comment> \<open>elapsed milliseconds of the trial\<close>
  | Table_Header
  | Table_Row int real        \<comment> \<open>threads, milliseconds\<close>
  | Stats_Header
  | Min_Sum int
  | Max_Sum int
  | Avg_Sum real
  | Examples_Header
  | Vector_Sum int int        \<comment> \<open>index, sum\<close>
  | Error_Line string         \<comment> \<open>on the error stream\<close>

text \<open>
  The members \<^verbatim>\<open>vectors\<close> and \<^verbatim>\<open>sums\<close> of \<^verbatim>\<open>VectorSumCalculator\<close>, and the
  standard output written so far. The mutex only serialises the output lines.
\<close>

record calc =
  vectors :: "int32 list list"
  sums_vec :: "int64 list"  \<comment> \<open>the member \<^verbatim>\<open>sums\<close>\<close>
  cout :: "event list"

text \<open>The inner loop \<^verbatim>\<open>for (int value : v) sum += value;\<close> from a given accumulator.\<close>

fun accumulate :: "int64 \<Rightarrow> int32 list \<Rightarrow> fault + int64" where
  "accumulate acc [] = Inr acc"
| "accumulate acc (v # rest) =
     (case add_ll acc (scast v) of
        Inl e \<Rightarrow> Inl e
      | Inr acc' \<Rightarrow> accumulate acc' rest)"

text \<open>
  The outer loop of \<^verbatim>\<open>calculateSumsRange\<close>, from index \<open>i\<close>. Reading \<^verbatim>\<open>vectors[i]\<close> or
  writing \<^verbatim>\<open>sums[i]\<close> out of range is undefined behaviour.
\<close>

function sums_loop :: "int \<Rightarrow> int \<Rightarrow> calc \<Rightarrow> fault + calc" where
  "sums_loop i end_idx c =
     (if i < end_idx then
        (if i < 0 \<or> int (length (vectors c)) \<le> i then Inl Undefined_Behaviour
         else
           (case accumulate 0 (vectors c ! nat i) of
              Inl e \<Rightarrow> Inl e
            | Inr acc \<Rightarrow>
                (if int (length (sums_vec c)) \<le> i then Inl Undefined_Behaviour
                 else sums_loop (i + 1) end_idx (c\<lparr>sums_vec := (sums_vec c)[nat i := acc]\<rparr>))))
      else Inr c)"
  by pat_completeness auto
termination
  by (relation "measure (\<lambda>(i, end_idx, c). nat (end_idx - i))") auto

declare sums_loop.simps [simp del]

definition calculateSumsRange :: "int \<Rightarrow> int \<Rightarrow> int \<Rightarrow> calc \<Rightarrow> fault + calc" where
  "calculateSumsRange start_idx end_idx thread_id c =
     (case sums_loop start_idx end_idx c of
        Inl e \<Rightarrow> Inl e
      | Inr c' \<Rightarrow>
          (case chk_int (end_idx - 1) of
             Inl e \<Rightarrow> Inl e
           | Inr last_idx \<Rightarrow> Inr (c'\<lparr>cout := cout c' @ [Thread_Done thread_id start_idx last_idx]\<rparr>)))"


section \<open>Partitioning and the parallel phase\<close>

text \<open>
  The loop of \<^verbatim>\<open>measureExecutionTime\<close> that creates the threads, from thread number
  \<open>i\<close>: it returns the arguments \<^verbatim>\<open>(current_start, end_idx, i + 1)\<close> each thread is
  created with.
\<close>

function partition_loop :: "int \<Rightarrow> int \<Rightarrow> int \<Rightarrow> int \<Rightarrow> int \<Rightarrow> fault + (int \<times> int \<times> int) list" where
  "partition_loop i num_threads vectors_per_thread remaining_vectors current_start =
     (if i < num_threads then
        (case (if i < remaining_vectors then chk_int (vectors_per_thread + 1)
               else Inr vectors_per_thread) of
           Inl e \<Rightarrow> Inl e
         | Inr vectors_for_this_thread \<Rightarrow>
             (case chk_int (current_start + vectors_for_this_thread) of
                Inl e \<Rightarrow> Inl e
              | Inr end_idx \<Rightarrow>
                  (case partition_loop (i + 1) num_threads vectors_per_thread
                          remaining_vectors end_idx of
                     Inl e \<Rightarrow> Inl e
                   | Inr rest \<Rightarrow> Inr ((current_start, end_idx, i + 1) # rest))))
      else Inr [])"
  by pat_completeness auto
termination
  by (relation "measure (\<lambda>(i, num_threads, _). nat (num_threads - i))") auto

declare partition_loop.simps [simp del]

text \<open>
  The partitioner: the two divisions on \<^verbatim>\<open>size_t\<close> (by zero: undefined), their
  conversion to \<^verbatim>\<open>int\<close>, and the loop. \<open>n\<close> is \<^verbatim>\<open>vectors.size()\<close>.
\<close>

definition partitioner :: "nat \<Rightarrow> int \<Rightarrow> fault + (int \<times> int \<times> int) list" where
  "partitioner n num_threads =
     (if size_t_of_int num_threads = 0 then Inl Undefined_Behaviour
      else
        (let vectors_per_thread = int_of_size_t (n div size_t_of_int num_threads);
             remaining_vectors = int_of_size_t (n mod size_t_of_int num_threads)
         in partition_loop 0 num_threads vectors_per_thread remaining_vectors 0))"

text \<open>
  The threads write disjoint slices of \<^verbatim>\<open>sums\<close> and are all joined before
  \<^verbatim>\<open>measureExecutionTime\<close> returns; here they run one after the other, in the order
  of their creation. The last sections let the scheduler interleave them and show that
  \<^verbatim>\<open>sums\<close> ends the same; only the order of the printed lines depends on the
  schedule. Creating a thread is taken to succeed.
\<close>

fun run_threads :: "(int \<times> int \<times> int) list \<Rightarrow> calc \<Rightarrow> fault + calc" where
  "run_threads [] c = Inr c"
| "run_threads ((start_idx, end_idx, thread_id) # rest) c =
     (case calculateSumsRange start_idx end_idx thread_id c of
        Inl e \<Rightarrow> Inl e
      | Inr c' \<Rightarrow> run_threads rest c')"

text \<open>
  \<open>elapsed\<close> is what the clock measured, in microseconds; the function returns it in
  milliseconds. A \<^verbatim>\<open>double\<close> is a real number here: rounding is not modelled.
\<close>

definition measureExecutionTime :: "int \<Rightarrow> int \<Rightarrow> calc \<Rightarrow> fault + (real \<times> calc)" where
  "measureExecutionTime num_threads elapsed c =
     (case partitioner (length (vectors c)) num_threads of
        Inl e \<Rightarrow> Inl e
      | Inr threads \<Rightarrow>
          (case run_threads threads c of
             Inl e \<Rightarrow> Inl e
           | Inr c' \<Rightarrow> Inr (real_of_int elapsed / 1000, c')))"

section \<open>Random numbers, generation and validation\<close>

text \<open>
  \<^verbatim>\<open>uniform_int_distribution<int> dis(a, b)\<close> requires \<open>a \<le> b\<close> and returns a value of
  \<open>[a, b]\<close>. The value is chosen by a natural number \<open>r\<close> that the environment supplies
  for each call, so that every value of the interval is returned for some \<open>r\<close>.
\<close>

definition dis :: "int \<Rightarrow> int \<Rightarrow> nat \<Rightarrow> int" where
  "dis a b r = a + int (r mod nat (b - a + 1))"

text \<open>
  \<open>fault\<close> is \<open>Some msg\<close> when an allocation fails with an exception whose \<^verbatim>\<open>what()\<close>
  is \<open>msg\<close>. A negative size, converted to \<^verbatim>\<open>size_t\<close>, exceeds \<^verbatim>\<open>max_size()\<close>:
  \<^verbatim>\<open>resize\<close> throws \<^verbatim>\<open>length_error\<close>. Call \<open>i * vector_size + j\<close> of the distribution
  fills \<^verbatim>\<open>vectors[i][j]\<close>.
\<close>

definition generateVectors ::
  "int \<Rightarrow> int \<Rightarrow> int \<Rightarrow> int \<Rightarrow> string option \<Rightarrow> (nat \<Rightarrow> nat) \<Rightarrow> calc \<Rightarrow> fault + calc" where
  "generateVectors num_vectors vector_size min_val max_val fault draws c =
     (case fault of
        Some msg \<Rightarrow> Inl (Exception msg)
      | None \<Rightarrow>
          (if num_vectors < 0 then Inl (Exception ''vector::_M_default_append'')
           else if max_val < min_val then Inl Undefined_Behaviour
           else if 0 < num_vectors \<and> vector_size < 0
             then Inl (Exception ''vector::_M_default_append'')
           else Inr (c\<lparr>
             vectors :=
               map (\<lambda>i. map (\<lambda>j. word_of_int
                                   (dis min_val max_val (draws (i * nat vector_size + j))))
                             [0..<nat vector_size])
                   [0..<nat num_vectors],
             sums_vec :=
               take (nat num_vectors) (sums_vec c)
                 @ replicate (nat num_vectors - length (sums_vec c)) 0\<rparr>)))"

text \<open>
  The loop of \<^verbatim>\<open>validateResults\<close> from test number \<open>test\<close>; \<open>draws test\<close> chooses the
  index of that test.
\<close>

function validate_loop :: "nat \<Rightarrow> int \<Rightarrow> int \<Rightarrow> (nat \<Rightarrow> nat) \<Rightarrow> calc \<Rightarrow> fault + (bool \<times> calc)" where
  "validate_loop test a b draws c =
     (if test < 10 then
        (let idx = dis a b (draws test) in
         if idx < 0 \<or> int (length (vectors c)) \<le> idx then Inl Undefined_Behaviour
         else
           (case accumulate 0 (vectors c ! nat idx) of
              Inl e \<Rightarrow> Inl e
            | Inr expected_sum \<Rightarrow>
                (if int (length (sums_vec c)) \<le> idx then Inl Undefined_Behaviour
                 else if sums_vec c ! nat idx \<noteq> expected_sum
                   then Inr (False, c\<lparr>cout := cout c @ [Validation_Error idx]\<rparr>)
                 else validate_loop (Suc test) a b draws c)))
      else Inr (True, c))"
  by pat_completeness auto
termination
  by (relation "measure (\<lambda>(test, _). 10 - test)") auto

declare validate_loop.simps [simp del]

text \<open>
  The upper bound \<^verbatim>\<open>vectors.size() - 1\<close> is computed on \<^verbatim>\<open>size_t\<close>, where it wraps,
  and converted to \<^verbatim>\<open>int\<close>.
\<close>

definition validateResults :: "(nat \<Rightarrow> nat) \<Rightarrow> calc \<Rightarrow> fault + (bool \<times> calc)" where
  "validateResults draws c =
     (let b = int_of_size_t ((length (vectors c) + 2 ^ 64 - 1) mod 2 ^ 64) in
      if b < 0 then Inl Undefined_Behaviour
      else validate_loop 0 0 b draws c)"


section \<open>The benchmark\<close>

text \<open>
  What the run takes from its environment: whether an allocation of the generation fails,
  the numbers that choose the random values of the generation and of each trial's
  validation, and the time the clock measures in each trial (trials are numbered from 0).
\<close>

record env =
  alloc_fault :: "string option"
  gen_draws :: "nat \<Rightarrow> nat"
  val_draws :: "nat \<Rightarrow> nat \<Rightarrow> nat"
  elapsed_us :: "nat \<Rightarrow> int"

text \<open>
  The body of the loop over \<^verbatim>\<open>thread_counts\<close>, in two parts. After the parallel
  phase: the time is appended to \<^verbatim>\<open>execution_times\<close>, the results are validated and
  the time is printed.
\<close>

definition record_and_validate ::
  "env \<Rightarrow> real \<Rightarrow> real list \<times> calc \<Rightarrow> fault + (real list \<times> calc)" where
  "record_and_validate e time st =
     (let execution_times = fst st @ [time]
      in case validateResults (val_draws e (length (fst st))) (snd st) of
           Inl x \<Rightarrow> Inl x
         | Inr (ok, c4) \<Rightarrow>
             (let c5 = (if ok then c4\<lparr>cout := cout c4 @ [Results_Correct]\<rparr> else c4)
              in Inr (execution_times, c5\<lparr>cout := cout c5 @ [Time_Line time]\<rparr>)))"

definition trial :: "env \<Rightarrow> int \<Rightarrow> real list \<times> calc \<Rightarrow> fault + (real list \<times> calc)" where
  "trial e num_threads st =
     (let c1 = (snd st)\<lparr>cout := cout (snd st) @ [Test_Header num_threads]\<rparr>;
          c2 = c1\<lparr>sums_vec := replicate (length (sums_vec c1)) 0\<rparr>
      in case measureExecutionTime num_threads (elapsed_us e (length (fst st))) c2 of
           Inl x \<Rightarrow> Inl x
         | Inr (time, c3) \<Rightarrow> record_and_validate e time (fst st, c3))"

fun trials :: "env \<Rightarrow> int list \<Rightarrow> real list \<times> calc \<Rightarrow> fault + (real list \<times> calc)" where
  "trials e [] st = Inr st"
| "trials e (num_threads # rest) st =
     (case trial e num_threads st of
        Inl x \<Rightarrow> Inl x
      | Inr st' \<Rightarrow> trials e rest st')"

text \<open>\<^verbatim>\<open>std::min_element\<close> and \<^verbatim>\<open>std::max_element\<close> on \<^verbatim>\<open>long long\<close>, from a first element.\<close>

fun min_element :: "int64 \<Rightarrow> int64 list \<Rightarrow> int64" where
  "min_element smallest [] = smallest"
| "min_element smallest (x # xs) = min_element (if sint x < sint smallest then x else smallest) xs"

fun max_element :: "int64 \<Rightarrow> int64 list \<Rightarrow> int64" where
  "max_element largest [] = largest"
| "max_element largest (x # xs) = max_element (if sint largest < sint x then x else largest) xs"

text \<open>The loop \<^verbatim>\<open>for (long long sum : sums) total_sum += sum;\<close>.\<close>

fun total_loop :: "int64 \<Rightarrow> int64 list \<Rightarrow> fault + int64" where
  "total_loop total_sum [] = Inr total_sum"
| "total_loop total_sum (x # xs) =
     (case add_ll total_sum x of
        Inl e \<Rightarrow> Inl e
      | Inr total_sum' \<Rightarrow> total_loop total_sum' xs)"

text \<open>
  The statistics printed after the table. Dereferencing the iterator that
  \<^verbatim>\<open>min_element\<close> returns on an empty \<^verbatim>\<open>sums\<close> is undefined.
\<close>

definition statistics :: "calc \<Rightarrow> fault + calc" where
  "statistics c =
     (case sums_vec c of
        [] \<Rightarrow> Inl Undefined_Behaviour
      | x # xs \<Rightarrow>
          (let min_sum = min_element x xs;
               max_sum = max_element x xs
           in case total_loop 0 (sums_vec c) of
                Inl e \<Rightarrow> Inl e
              | Inr total_sum \<Rightarrow>
                  (let avg_sum = real_of_int (sint total_sum) / real (length (sums_vec c))
                   in Inr (c\<lparr>cout := cout c
                        @ [Stats_Header, Min_Sum (sint min_sum), Max_Sum (sint max_sum),
                           Avg_Sum avg_sum, Examples_Header]
                        @ map (\<lambda>i. Vector_Sum (int i) (sint (sums_vec c ! i)))
                            [0..<nat (min 10 (int_of_size_t (length (sums_vec c))))]\<rparr>))))"

definition thread_counts :: "int list" where
  "thread_counts = [1, 2, 4]"

definition runBenchmark :: "env \<Rightarrow> fault + calc" where
  "runBenchmark e =
     (let c0 = \<lparr>vectors = [], sums_vec = [], cout = [Banner, Generating]\<rparr>
      in case generateVectors 30000 100 (- 1000) 1000 (alloc_fault e) (gen_draws e) c0 of
           Inl x \<Rightarrow> Inl x
         | Inr c1 \<Rightarrow>
             (case trials e thread_counts ([], c1\<lparr>cout := cout c1 @ [Generated]\<rparr>) of
                Inl x \<Rightarrow> Inl x
              | Inr (execution_times, c2) \<Rightarrow>
                  (if length execution_times < length thread_counts
                   then Inl Undefined_Behaviour
                   else statistics (c2\<lparr>cout := cout c2
                          @ Table_Header
                          # map (\<lambda>i. Table_Row (thread_counts ! i) (execution_times ! i))
                              [0..<length thread_counts]\<rparr>))))"

text \<open>
  The entry point: the exit code and what was written to the error stream.
\<close>

record process =
  exit_code :: int
  cerr :: "event list"

definition main :: "env \<Rightarrow> fault + process" where
  "main e =
     (case runBenchmark e of
        Inr c \<Rightarrow> Inr \<lparr>exit_code = 0, cerr = []\<rparr>
      | Inl (Exception msg) \<Rightarrow> Inr \<lparr>exit_code = 1, cerr = [Error_Line msg]\<rparr>
      | Inl Undefined_Behaviour \<Rightarrow> Inl Undefined_Behaviour)"


section \<open>Notions used in the statements\<close>

text \<open>The sum of a vector's elements modulo \<open>2 ^ 64\<close>, each element sign-extended.\<close>

definition wsum :: "int32 list \<Rightarrow> int64" where
  "wsum v = sum_list (map scast v)"

text \<open>
  The sizes of \<^verbatim>\<open>vectors\<close> and of each of its elements come from parameters of type
  \<^verbatim>\<open>int\<close> of \<^verbatim>\<open>generateVectors\<close>, its only writer, which also gives \<^verbatim>\<open>sums\<close> the
  size of \<^verbatim>\<open>vectors\<close>.
\<close>

definition calc_inv :: "calc \<Rightarrow> bool" where
  "calc_inv c \<longleftrightarrow>
     int (length (vectors c)) \<le> INT_MAX \<and>
     length (sums_vec c) = length (vectors c) \<and>
     (\<forall>v \<in> set (vectors c). int (length v) \<le> INT_MAX)"

text \<open>\<^verbatim>\<open>sums\<close> after the indices from \<open>i\<close> up to \<open>e\<close> (excluded) have been written.\<close>

definition fill_range :: "int \<Rightarrow> int \<Rightarrow> calc \<Rightarrow> int64 list" where
  "fill_range i e c =
     map (\<lambda>j. if i \<le> int j \<and> int j < e then wsum (vectors c ! j) else sums_vec c ! j)
       [0..<length (sums_vec c)]"

text \<open>A list of thread arguments whose ranges follow each other from \<open>a\<close> to \<open>b\<close>.\<close>

fun chain :: "int \<Rightarrow> (int \<times> int \<times> int) list \<Rightarrow> int \<Rightarrow> bool" where
  "chain a [] b \<longleftrightarrow> a = b"
| "chain a ((s, e, t) # rest) b \<longleftrightarrow> s = a \<and> s \<le> e \<and> chain e rest b"

text \<open>
  Where range number \<open>k\<close> (from 0) starts when every range has \<open>q\<close> indices and the first
  \<open>r\<close> ranges one more.
\<close>

definition range_start :: "int \<Rightarrow> int \<Rightarrow> int \<Rightarrow> int" where
  "range_start q r k = k * q + min k r"

definition ranges_of :: "int \<Rightarrow> int \<Rightarrow> nat \<Rightarrow> nat \<Rightarrow> (int \<times> int \<times> int) list" where
  "ranges_of q r i w =
     map (\<lambda>k. (range_start q r (int k), range_start q r (int k + 1), int k + 1)) [i..<w]"

text \<open>The lines the threads print, in the order of their creation.\<close>

definition done_lines :: "(int \<times> int \<times> int) list \<Rightarrow> event list" where
  "done_lines ts = map (\<lambda>(s, e, t). Thread_Done t s (e - 1)) ts"

text \<open>The calculator after the parallel phase with \<open>w\<close> threads.\<close>

definition after_measure :: "int \<Rightarrow> calc \<Rightarrow> calc" where
  "after_measure w c =
     c\<lparr>sums_vec := map wsum (vectors c),
       cout := cout c @ done_lines
         (ranges_of (int (length (vectors c)) div w) (int (length (vectors c)) mod w)
            0 (nat w))\<rparr>"

text \<open>The indices and the size of the range a thread is created with.\<close>

definition range_set :: "int \<times> int \<times> int \<Rightarrow> int set" where
  "range_set a = (case a of (s, e, t) \<Rightarrow> {s..<e})"

definition range_size :: "int \<times> int \<times> int \<Rightarrow> int" where
  "range_size a = (case a of (s, e, t) \<Rightarrow> e - s)"

definition range_begin :: "int \<times> int \<times> int \<Rightarrow> int" where
  "range_begin a = (case a of (s, e, t) \<Rightarrow> s)"

definition range_end :: "int \<times> int \<times> int \<Rightarrow> int" where
  "range_end a = (case a of (s, e, t) \<Rightarrow> e)"

text \<open>
  The index that test number \<open>t\<close> of the validation samples, and whether the stored sum
  at an index is the recomputed one.
\<close>

definition sample_idx :: "calc \<Rightarrow> (nat \<Rightarrow> nat) \<Rightarrow> nat \<Rightarrow> int" where
  "sample_idx c draws t =
     dis 0 (int_of_size_t ((length (vectors c) + 2 ^ 64 - 1) mod 2 ^ 64)) (draws t)"

definition matches :: "calc \<Rightarrow> int \<Rightarrow> bool" where
  "matches c idx \<longleftrightarrow> accumulate 0 (vectors c ! nat idx) = Inr (sums_vec c ! nat idx)"

text \<open>
  A calculator whose second sum is wrong, and an environment without failure, for the
  examples.
\<close>

definition corrupted :: calc where
  "corrupted = \<lparr>vectors = [[1, 2, 3], [4, 5, 6]], sums_vec = [6, 14], cout = []\<rparr>"

definition counting_env :: env where
  "counting_env = \<lparr>alloc_fault = None, gen_draws = (\<lambda>k. k),
     val_draws = (\<lambda>k t. t), elapsed_us = (\<lambda>k. 5000)\<rparr>"

text \<open>The vectors that the generation makes from the draws.\<close>

definition generated_vectors :: "nat \<Rightarrow> nat \<Rightarrow> int \<Rightarrow> int \<Rightarrow> (nat \<Rightarrow> nat) \<Rightarrow> int32 list list" where
  "generated_vectors n m lo hi draws =
     map (\<lambda>i. map (\<lambda>j. word_of_int (dis lo hi (draws (i * m + j)))) [0..<m]) [0..<n]"

text \<open>The calculator after a trial with \<open>w\<close> threads that took \<open>time\<close> milliseconds.\<close>

definition after_trial :: "int \<Rightarrow> real \<Rightarrow> calc \<Rightarrow> calc" where
  "after_trial w time c =
     (let c3 = after_measure w
                 (c\<lparr>cout := cout c @ [Test_Header w],
                    sums_vec := replicate (length (sums_vec c)) 0\<rparr>)
      in c3\<lparr>cout := cout c3 @ [Results_Correct, Time_Line time]\<rparr>)"

text \<open>The lines of the statistics, from the sums they are computed from.\<close>

definition statistics_lines :: "int64 list \<Rightarrow> event list" where
  "statistics_lines r =
     [Stats_Header, Min_Sum (Min (sint ` set r)), Max_Sum (Max (sint ` set r)),
      Avg_Sum (real_of_int (sum_list (map sint r)) / real (length r)), Examples_Header]
     @ map (\<lambda>i. Vector_Sum (int i) (sint (r ! i))) [0..<min 10 (length r)]"

text \<open>The calculator after the generation of the run, and the three times of the run.\<close>

definition generated :: "env \<Rightarrow> calc" where
  "generated e =
     \<lparr>vectors = generated_vectors 30000 100 (- 1000) 1000 (gen_draws e),
      sums_vec = replicate 30000 0,
      cout = [Banner, Generating]\<rparr>"

definition time_of :: "env \<Rightarrow> nat \<Rightarrow> real" where
  "time_of e k = real_of_int (elapsed_us e k) / 1000"

text \<open>The calculator after the first two trials and after the last one.\<close>

definition before_last_trial :: "env \<Rightarrow> calc" where
  "before_last_trial e =
     after_trial 2 (time_of e 1)
       (after_trial 1 (time_of e 0) ((generated e)\<lparr>cout := cout (generated e) @ [Generated]\<rparr>))"

definition after_last_trial :: "env \<Rightarrow> calc" where
  "after_last_trial e = after_trial 4 (time_of e 2) (before_last_trial e)"

text \<open>The lines of the table of times.\<close>

definition table_lines :: "env \<Rightarrow> event list" where
  "table_lines e =
     [Table_Header, Table_Row 1 (time_of e 0), Table_Row 2 (time_of e 1),
      Table_Row 4 (time_of e 2)]"

section \<open>The threads, interleaved\<close>

text \<open>
  The threads as they really run: each one has the index it works on next, the end and
  the start of its range, its number, and whether it has printed its line. A step is one
  iteration of the loop of one thread, or the printing of its line by a thread whose
  loop is over; the scheduler picks the thread. A step that would read or write out of
  range, or overflow, does not exist.
\<close>

record worker =
  next_idx :: int
  stop_idx :: int
  first_idx :: int
  tid :: int
  finished :: bool

definition spawn :: "(int \<times> int \<times> int) list \<Rightarrow> worker list" where
  "spawn ts =
     map (\<lambda>a. \<lparr>next_idx = range_begin a, stop_idx = range_end a, first_idx = range_begin a,
               tid = snd (snd a), finished = False\<rparr>) ts"

inductive step :: "worker list \<times> calc \<Rightarrow> worker list \<times> calc \<Rightarrow> bool" where
  iteration:
    "k < length ws \<Longrightarrow> \<not> finished (ws ! k) \<Longrightarrow> next_idx (ws ! k) = i \<Longrightarrow>
     i < stop_idx (ws ! k) \<Longrightarrow> 0 \<le> i \<Longrightarrow> i < int (length (vectors c)) \<Longrightarrow>
     accumulate 0 (vectors c ! nat i) = Inr acc \<Longrightarrow> i < int (length (sums_vec c)) \<Longrightarrow>
     step (ws, c) (ws[k := (ws ! k)\<lparr>next_idx := i + 1\<rparr>],
                   c\<lparr>sums_vec := (sums_vec c)[nat i := acc]\<rparr>)"
| report:
    "k < length ws \<Longrightarrow> \<not> finished (ws ! k) \<Longrightarrow> \<not> next_idx (ws ! k) < stop_idx (ws ! k) \<Longrightarrow>
     chk_int (stop_idx (ws ! k) - 1) = Inr last_idx \<Longrightarrow>
     step (ws, c) (ws[k := (ws ! k)\<lparr>finished := True\<rparr>],
                   c\<lparr>cout := cout c @ [Thread_Done (tid (ws ! k)) (first_idx (ws ! k)) last_idx]\<rparr>)"

text \<open>
  What holds of every state the threads reach from \<open>(spawn ts, c0)\<close>: each thread is
  within its range, and an entry of \<^verbatim>\<open>sums\<close> that a thread has passed holds the sum of
  its vector, the others are as they were.
\<close>

definition worker_ok :: "int \<times> int \<times> int \<Rightarrow> worker \<Rightarrow> bool" where
  "worker_ok a x \<longleftrightarrow>
     first_idx x = range_begin a \<and> stop_idx x = range_end a \<and>
     first_idx x \<le> next_idx x \<and>
     (next_idx x \<le> stop_idx x \<or> next_idx x = first_idx x) \<and>
     (finished x \<longrightarrow> \<not> next_idx x < stop_idx x)"

definition passed :: "worker list \<Rightarrow> nat \<Rightarrow> bool" where
  "passed ws j \<longleftrightarrow> (\<exists>k < length ws. first_idx (ws ! k) \<le> int j \<and> int j < next_idx (ws ! k))"

definition reached :: "(int \<times> int \<times> int) list \<Rightarrow> calc \<Rightarrow> worker list \<times> calc \<Rightarrow> bool" where
  "reached ts c0 st \<longleftrightarrow>
     length (fst st) = length ts \<and>
     (\<forall>k < length ts. worker_ok (ts ! k) (fst st ! k)) \<and>
     vectors (snd st) = vectors c0 \<and>
     length (sums_vec (snd st)) = length (sums_vec c0) \<and>
     (\<forall>j < length (sums_vec c0).
        sums_vec (snd st) ! j
          = (if passed (fst st) j then wsum (vectors c0 ! j) else sums_vec c0 ! j))"

text \<open>The work that is left: the iterations and the lines still to come.\<close>

definition work_left :: "worker list \<times> calc \<Rightarrow> nat" where
  "work_left st =
     sum_list (map (\<lambda>x. nat (stop_idx x - next_idx x) + (if finished x then 0 else 1)) (fst st))"

section \<open>Accumulation\<close>

lemma sint_scast_32_64: "sint (scast (x :: int32) :: int64) = sint x"
  by (rule sint_up_scast) (simp add: is_up)

lemma sint_add_64:
  "- (2 ^ 63) \<le> sint (a :: int64) + sint (b :: int64) \<Longrightarrow> sint a + sint b < 2 ^ 63
   \<Longrightarrow> sint (a + b) = sint a + sint b"
  by (simp add: sint_word_ariths signed_take_bit_int_eq_self)

lemma sint32_bounds: "- (2 ^ 31) \<le> sint (x :: int32) \<and> sint x < 2 ^ 31"
  using sint_ge [of x] sint_lt [of x] by simp

lemma accumulate_Inr_wsum: "accumulate acc v = Inr r \<Longrightarrow> r = acc + wsum v"
proof (induction v arbitrary: acc)
  case Nil
  then show ?case by (simp add: wsum_def)
next
  case (Cons x v)
  from Cons.prems have "accumulate (acc + scast x) v = Inr r"
    by (auto simp: add_ll_def split: sum.splits if_splits)
  then have "r = acc + scast x + wsum v" by (rule Cons.IH)
  then show ?case by (simp add: wsum_def add.assoc)
qed

lemma accumulate_append:
  "accumulate acc (xs @ ys) =
     (case accumulate acc xs of Inl e \<Rightarrow> Inl e | Inr acc' \<Rightarrow> accumulate acc' ys)"
  by (induction xs arbitrary: acc) (auto split: sum.splits)

text \<open>
  No step overflows when the elements lie in \<open>[lo, hi]\<close> and the accumulator leaves room
  for that many of them; the result is then the mathematical sum.
\<close>

lemma accumulate_bounded:
  assumes "\<forall>x \<in> set v. lo \<le> sint x \<and> sint x \<le> hi"
    and "lo \<le> 0" and "0 \<le> hi"
    and "LLONG_MIN \<le> sint acc + lo * int (length v)"
    and "sint acc + hi * int (length v) \<le> LLONG_MAX"
  shows "\<exists>r. accumulate acc v = Inr r \<and> sint r = sint acc + sum_list (map sint v)"
  using assms
proof (induction v arbitrary: acc)
  case Nil
  then show ?case by simp
next
  case (Cons x v)
  have x: "lo \<le> sint x" "sint x \<le> hi" using Cons.prems(1) by auto
  have len: "lo * int (length (x # v)) = lo + lo * int (length v)"
    "hi * int (length (x # v)) = hi + hi * int (length v)"
    by (simp_all add: algebra_simps)
  have lo_v: "lo * int (length v) \<le> 0" using \<open>lo \<le> 0\<close> by (simp add: mult_nonpos_nonneg)
  have hi_v: "0 \<le> hi * int (length v)" using \<open>0 \<le> hi\<close> by simp
  have rng: "LLONG_MIN \<le> sint acc + sint x" "sint acc + sint x \<le> LLONG_MAX"
    using Cons.prems(4,5) x lo_v hi_v unfolding len by linarith+
  then have step: "add_ll acc (scast x) = Inr (acc + scast x)"
    by (simp add: add_ll_def sint_scast_32_64)
  have sx: "sint (acc + scast x) = sint acc + sint x"
    using rng sint_add_64 [of acc "scast x"]
    by (simp add: sint_scast_32_64 LLONG_MIN_def LLONG_MAX_def)
  have "\<exists>r. accumulate (acc + scast x) v = Inr r
           \<and> sint r = sint (acc + scast x) + sum_list (map sint v)"
  proof (rule Cons.IH)
    show "\<forall>x \<in> set v. lo \<le> sint x \<and> sint x \<le> hi" using Cons.prems(1) by simp
    show "lo \<le> 0" "0 \<le> hi" by fact+
    show "LLONG_MIN \<le> sint (acc + scast x) + lo * int (length v)"
      using Cons.prems(4) x unfolding len sx by linarith
    show "sint (acc + scast x) + hi * int (length v) \<le> LLONG_MAX"
      using Cons.prems(5) x unfolding len sx by linarith
  qed
  then show ?case using step sx by auto
qed

lemma accumulate_int_range:
  assumes "int (length v) \<le> INT_MAX"
  shows "accumulate 0 v = Inr (wsum v)" and "sint (wsum v) = sum_list (map sint v)"
proof -
  have "\<exists>r. accumulate 0 v = Inr r \<and> sint r = sint (0 :: int64) + sum_list (map sint v)"
  proof (rule accumulate_bounded [where lo = "- (2 ^ 31)" and hi = "2 ^ 31"])
    show "\<forall>x \<in> set v. - (2 ^ 31) \<le> sint x \<and> sint x \<le> 2 ^ 31"
      using sint32_bounds by (auto intro: less_imp_le)
    show "LLONG_MIN \<le> sint (0 :: int64) + - (2 ^ 31) * int (length v)"
      using assms by (simp add: LLONG_MIN_def INT_MAX_def)
    show "sint (0 :: int64) + 2 ^ 31 * int (length v) \<le> LLONG_MAX"
      using assms by (simp add: LLONG_MAX_def INT_MAX_def)
  qed simp_all
  then obtain r where r: "accumulate 0 v = Inr r" "sint r = sum_list (map sint v)"
    by auto
  from accumulate_Inr_wsum [OF r(1)] have "r = wsum v" by simp
  with r show "accumulate 0 v = Inr (wsum v)" and "sint (wsum v) = sum_list (map sint v)"
    by simp_all
qed

section \<open>The loop of a worker\<close>

lemma length_fill_range [simp]: "length (fill_range i e c) = length (sums_vec c)"
  by (simp add: fill_range_def)

lemma nth_fill_range:
  "j < length (sums_vec c) \<Longrightarrow>
   fill_range i e c ! j = (if i \<le> int j \<and> int j < e then wsum (vectors c ! j) else sums_vec c ! j)"
  by (simp add: fill_range_def)

lemma fill_range_empty: "e \<le> i \<Longrightarrow> fill_range i e c = sums_vec c"
  by (rule nth_equalityI) (auto simp: nth_fill_range)

lemma sums_loop_fill:
  assumes "0 \<le> i" and "e \<le> int (length (vectors c))"
    and "length (sums_vec c) = length (vectors c)"
    and "\<forall>v \<in> set (vectors c). accumulate 0 v = Inr (wsum v)"
  shows "sums_loop i e c = Inr (c\<lparr>sums_vec := fill_range i e c\<rparr>)"
  using assms
proof (induction i e c rule: sums_loop.induct)
  case (1 i e c)
  show ?case
  proof (cases "i < e")
    case False
    then show ?thesis
      by (subst sums_loop.simps) (simp add: fill_range_empty)
  next
    case True
    let ?w = "wsum (vectors c ! nat i)"
    let ?c = "c\<lparr>sums_vec := (sums_vec c)[nat i := ?w]\<rparr>"
    have in_range: "nat i < length (vectors c)" using True "1.prems"(1,2) by linarith
    then have acc: "accumulate 0 (vectors c ! nat i) = Inr ?w"
      using "1.prems"(4) by simp
    have not_out: "\<not> (i < 0 \<or> int (length (vectors c)) \<le> i)"
      "\<not> int (length (sums_vec c)) \<le> i"
      using True "1.prems"(1,2,3) by auto
    have "sums_loop (i + 1) e ?c = Inr (?c\<lparr>sums_vec := fill_range (i + 1) e ?c\<rparr>)"
      using "1.IH" [OF True not_out(1) acc not_out(2)] "1.prems" by simp
    moreover have "fill_range (i + 1) e ?c = fill_range i e c"
    proof (rule nth_equalityI)
      show "length (fill_range (i + 1) e ?c) = length (fill_range i e c)" by simp
      fix j assume "j < length (fill_range (i + 1) e ?c)"
      then have j: "j < length (sums_vec c)" by simp
      show "fill_range (i + 1) e ?c ! j = fill_range i e c ! j"
      proof (cases "j = nat i")
        case True
        with j \<open>i < e\<close> \<open>0 \<le> i\<close> show ?thesis by (simp add: nth_fill_range)
      next
        case False
        then have "(i + 1 \<le> int j) = (i \<le> int j)" using \<open>0 \<le> i\<close> by auto
        with False j show ?thesis by (simp add: nth_fill_range)
      qed
    qed
    ultimately show ?thesis
      using True not_out acc by (subst sums_loop.simps) simp
  qed
qed

lemma calculateSumsRange_fill:
  assumes "0 \<le> s" and "s \<le> e" and "e \<le> int (length (vectors c))"
    and "int (length (vectors c)) \<le> INT_MAX"
    and "length (sums_vec c) = length (vectors c)"
    and "\<forall>v \<in> set (vectors c). accumulate 0 v = Inr (wsum v)"
  shows "calculateSumsRange s e t c =
           Inr (c\<lparr>sums_vec := fill_range s e c, cout := cout c @ [Thread_Done t s (e - 1)]\<rparr>)"
proof -
  have "chk_int (e - 1) = Inr (e - 1)"
    using assms(1-4) by (simp add: chk_int_def INT_MIN_def INT_MAX_def)
  then show ?thesis
    using sums_loop_fill [OF assms(1,3,5,6)] by (simp add: calculateSumsRange_def)
qed

lemma chain_le: "chain a ts b \<Longrightarrow> a \<le> b"
proof (induction ts arbitrary: a)
  case Nil
  then show ?case by simp
next
  case (Cons x ts)
  obtain s e t where "x = (s, e, t)" by (cases x) auto
  with Cons.prems have "a \<le> e" "chain e ts b" by auto
  with Cons.IH [of e] show ?case by linarith
qed

lemma fill_range_twice:
  assumes "a \<le> e" and "e \<le> b"
  shows "fill_range e b (c\<lparr>sums_vec := fill_range a e c, cout := out\<rparr>) = fill_range a b c"
proof (rule nth_equalityI)
  show "length (fill_range e b (c\<lparr>sums_vec := fill_range a e c, cout := out\<rparr>))
          = length (fill_range a b c)" by simp
  fix j assume "j < length (fill_range e b (c\<lparr>sums_vec := fill_range a e c, cout := out\<rparr>))"
  then have "j < length (sums_vec c)" by simp
  then show "fill_range e b (c\<lparr>sums_vec := fill_range a e c, cout := out\<rparr>) ! j
               = fill_range a b c ! j"
    using assms by (auto simp: nth_fill_range)
qed

lemma run_threads_chain:
  assumes "chain a ts b" and "0 \<le> a" and "b \<le> int (length (vectors c))"
    and "int (length (vectors c)) \<le> INT_MAX"
    and "length (sums_vec c) = length (vectors c)"
    and "\<forall>v \<in> set (vectors c). accumulate 0 v = Inr (wsum v)"
  shows "run_threads ts c =
           Inr (c\<lparr>sums_vec := fill_range a b c, cout := cout c @ done_lines ts\<rparr>)"
  using assms
proof (induction ts arbitrary: a c)
  case Nil
  then show ?case by (simp add: fill_range_empty done_lines_def)
next
  case (Cons x ts)
  obtain s e t where x: "x = (s, e, t)" by (cases x) auto
  from Cons.prems(1) x have s: "s = a" "a \<le> e" and ch: "chain e ts b" by auto
  from chain_le [OF ch] have eb: "e \<le> b" .
  let ?c = "c\<lparr>sums_vec := fill_range a e c, cout := cout c @ [Thread_Done t a (e - 1)]\<rparr>"
  have one: "calculateSumsRange a e t c = Inr ?c"
    using Cons.prems s eb by (intro calculateSumsRange_fill) auto
  have "run_threads ts ?c =
          Inr (?c\<lparr>sums_vec := fill_range e b ?c, cout := cout ?c @ done_lines ts\<rparr>)"
    using Cons.prems s ch by (intro Cons.IH) auto
  then show ?case
    using one x s eb by (simp add: fill_range_twice done_lines_def)
qed

section \<open>The loop of the partitioner\<close>

lemma range_start_0 [simp]: "0 \<le> r \<Longrightarrow> range_start q r 0 = 0"
  by (simp add: range_start_def)

lemma range_start_step:
  "range_start q r (k + 1) = range_start q r k + (if k < r then q + 1 else q)"
  by (simp add: range_start_def algebra_simps min_def)

lemma range_start_le_next: "0 \<le> q \<Longrightarrow> range_start q r k \<le> range_start q r (k + 1)"
  by (simp add: range_start_step)

lemma range_start_mono:
  assumes "0 \<le> q" and "k \<le> k'"
  shows "range_start q r k \<le> range_start q r k'"
proof -
  have "k * q \<le> k' * q" using assms by (rule_tac mult_right_mono)
  then show ?thesis using assms(2) by (simp add: range_start_def min_def)
qed

lemma range_start_full:
  "0 \<le> n \<Longrightarrow> 0 < w \<Longrightarrow> range_start (n div w) (n mod w) w = (n :: int)"
proof -
  assume "0 \<le> n" "0 < w"
  then have "n mod w < w" by simp
  then have "min w (n mod w) = n mod w" by simp
  then show ?thesis by (simp add: range_start_def)
qed

lemma ranges_of_Cons:
  "i < w \<Longrightarrow> ranges_of q r i w =
     (range_start q r (int i), range_start q r (int i + 1), int i + 1) # ranges_of q r (Suc i) w"
  by (simp add: ranges_of_def upt_conv_Cons)

lemma ranges_of_Nil: "w \<le> i \<Longrightarrow> ranges_of q r i w = []"
  by (simp add: ranges_of_def)

lemma partition_loop_closed:
  assumes "0 \<le> q" and "0 \<le> r" and "range_start q r (int w) \<le> INT_MAX"
  shows "partition_loop (int i) (int w) q r (range_start q r (int i)) = Inr (ranges_of q r i w)"
proof (induction "w - i" arbitrary: i)
  case 0
  then have "w \<le> i" by simp
  then show ?case by (subst partition_loop.simps) (simp add: ranges_of_Nil)
next
  case (Suc n)
  then have iw: "i < w" and n: "n = w - Suc i" by simp_all
  have nonneg: "0 \<le> range_start q r (int i)"
    using range_start_mono [OF assms(1), of 0 "int i" r] assms(2) by simp
  have le: "range_start q r (int i + 1) \<le> INT_MAX"
    using range_start_mono [OF assms(1), of "int i + 1" "int w" r] iw assms(3) by simp
  have cnt: "(if int i < r then chk_int (q + 1) else Inr q)
               = Inr (if int i < r then q + 1 else q)"
    using le nonneg assms(1) unfolding range_start_step
    by (auto simp: chk_int_def INT_MIN_def INT_MAX_def)
  have nxt: "chk_int (range_start q r (int i) + (if int i < r then q + 1 else q))
               = Inr (range_start q r (int i + 1))"
    using le nonneg assms(1) unfolding range_start_step
    by (auto simp: chk_int_def INT_MIN_def INT_MAX_def)
  have "partition_loop (int (Suc i)) (int w) q r (range_start q r (int (Suc i)))
          = Inr (ranges_of q r (Suc i) w)"
    using Suc.hyps(1) [of "Suc i"] n by simp
  then have rest: "partition_loop (int i + 1) (int w) q r (range_start q r (int i + 1))
          = Inr (ranges_of q r (Suc i) w)"
    by (simp add: add.commute)
  show ?case
    using iw by (subst partition_loop.simps) (simp add: cnt nxt rest ranges_of_Cons)
qed

lemma size_t_of_int_pos: "0 \<le> w \<Longrightarrow> w \<le> INT_MAX \<Longrightarrow> size_t_of_int w = nat w"
  by (simp add: size_t_of_int_def INT_MAX_def)

lemma int_of_size_t_small: "int n \<le> INT_MAX \<Longrightarrow> int_of_size_t n = int n"
  by (simp add: int_of_size_t_def INT_MAX_def Let_def)

lemma partitioner_closed:
  assumes "1 \<le> w" and "w \<le> INT_MAX" and "int n \<le> INT_MAX"
  shows "partitioner n w = Inr (ranges_of (int n div w) (int n mod w) 0 (nat w))"
proof -
  have sz: "size_t_of_int w = nat w" using assms by (simp add: size_t_of_int_pos)
  have q: "int (n div nat w) = int n div w" using assms(1) by (simp add: zdiv_int)
  have r: "int (n mod nat w) = int n mod w" using assms(1) by (simp add: zmod_int)
  have "n div nat w \<le> n" "n mod nat w \<le> n" by (simp_all add: mod_le_divisor less_imp_le)
  then have small: "int (n div nat w) \<le> INT_MAX" "int (n mod nat w) \<le> INT_MAX"
    using assms(3) by linarith+
  have conv: "int_of_size_t (n div nat w) = int n div w" "int_of_size_t (n mod nat w) = int n mod w"
    using small q r by (simp_all add: int_of_size_t_small)
  have full: "range_start (int n div w) (int n mod w) (int (nat w)) = int n"
    using assms(1) range_start_full [of "int n" w] by simp
  have "partition_loop (int 0) (int (nat w)) (int n div w) (int n mod w)
          (range_start (int n div w) (int n mod w) (int 0))
        = Inr (ranges_of (int n div w) (int n mod w) 0 (nat w))"
  proof (rule partition_loop_closed)
    show "0 \<le> int n div w" using assms(1) by (simp add: pos_imp_zdiv_nonneg_iff)
    show "0 \<le> int n mod w" using assms(1) by simp
    show "range_start (int n div w) (int n mod w) (int (nat w)) \<le> INT_MAX"
      using assms(3) unfolding full .
  qed
  moreover have "range_start (int n div w) (int n mod w) (int 0) = 0"
    using assms(1) by simp
  ultimately show ?thesis
    using assms(1) by (simp add: partitioner_def sz conv Let_def)
qed

section \<open>The parallel phase\<close>

lemma chain_ranges_of:
  assumes "0 \<le> q" and "i \<le> w"
  shows "chain (range_start q r (int i)) (ranges_of q r i w) (range_start q r (int w))"
  using assms(2)
proof (induction "w - i" arbitrary: i)
  case 0
  then show ?case by (simp add: ranges_of_Nil)
next
  case (Suc n)
  then have iw: "i < w" and n: "n = w - Suc i" by simp_all
  have "chain (range_start q r (int (Suc i))) (ranges_of q r (Suc i) w) (range_start q r (int w))"
    using Suc.hyps(1) [of "Suc i"] n iw by simp
  then have "chain (range_start q r (int i + 1)) (ranges_of q r (Suc i) w) (range_start q r (int w))"
    by (simp add: add.commute)
  then show ?case
    using iw range_start_le_next [OF assms(1), of r "int i"] by (simp add: ranges_of_Cons)
qed

lemma fill_range_all:
  assumes "length (sums_vec c) = length (vectors c)"
  shows "fill_range 0 (int (length (vectors c))) c = map wsum (vectors c)"
  by (rule nth_equalityI) (simp_all add: assms nth_fill_range)

lemma calc_inv_accumulate:
  "calc_inv c \<Longrightarrow> \<forall>v \<in> set (vectors c). accumulate 0 v = Inr (wsum v)"
  by (simp add: calc_inv_def accumulate_int_range(1))

text \<open>What a trial's parallel phase returns.\<close>

lemma measureExecutionTime_result:
  assumes "calc_inv c" and "1 \<le> w" and "w \<le> INT_MAX"
  shows "measureExecutionTime w elapsed c = Inr (real_of_int elapsed / 1000, after_measure w c)"
proof -
  let ?n = "int (length (vectors c))"
  let ?ts = "ranges_of (?n div w) (?n mod w) 0 (nat w)"
  have n: "?n \<le> INT_MAX" and len: "length (sums_vec c) = length (vectors c)"
    using assms(1) by (simp_all add: calc_inv_def)
  have p: "partitioner (length (vectors c)) w = Inr ?ts"
    using assms(2,3) n by (rule partitioner_closed)
  have "chain (range_start (?n div w) (?n mod w) (int 0)) ?ts
          (range_start (?n div w) (?n mod w) (int (nat w)))"
    using assms(2) by (intro chain_ranges_of) (simp_all add: pos_imp_zdiv_nonneg_iff)
  then have ch: "chain 0 ?ts ?n"
    using assms(2) range_start_full [of ?n w] by simp
  have "run_threads ?ts c =
          Inr (c\<lparr>sums_vec := fill_range 0 ?n c, cout := cout c @ done_lines ?ts\<rparr>)"
    using ch _ _ n len calc_inv_accumulate [OF assms(1)] by (rule run_threads_chain) simp_all
  then show ?thesis
    using p len by (simp add: measureExecutionTime_def fill_range_all after_measure_def)
qed

lemma sums_loop_frame:
  "sums_loop i e c = Inr c' \<Longrightarrow>
     vectors c' = vectors c \<and> cout c' = cout c \<and> length (sums_vec c') = length (sums_vec c) \<and>
     (\<forall>j. int j < i \<or> e \<le> int j \<longrightarrow> sums_vec c' ! j = sums_vec c ! j)"
proof (induction i e c rule: sums_loop.induct)
  case (1 i e c)
  show ?case
  proof (cases "i < e")
    case False
    with "1.prems" have "c' = c" by (subst (asm) sums_loop.simps) simp
    then show ?thesis by simp
  next
    case True
    from "1.prems" True obtain acc where
      ok: "\<not> (i < 0 \<or> int (length (vectors c)) \<le> i)"
        "accumulate 0 (vectors c ! nat i) = Inr acc"
        "\<not> int (length (sums_vec c)) \<le> i"
      and rest: "sums_loop (i + 1) e (c\<lparr>sums_vec := (sums_vec c)[nat i := acc]\<rparr>) = Inr c'"
      by (subst (asm) sums_loop.simps) (auto split: if_splits sum.splits)
    from "1.IH" [OF True ok rest]
    have ih: "vectors c' = vectors c" "cout c' = cout c"
      "length (sums_vec c') = length (sums_vec c)"
      "\<forall>j. int j < i + 1 \<or> e \<le> int j \<longrightarrow> sums_vec c' ! j = (sums_vec c)[nat i := acc] ! j"
      by simp_all
    have "sums_vec c' ! j = sums_vec c ! j" if "int j < i \<or> e \<le> int j" for j
    proof -
      from that True ok(1) have "j \<noteq> nat i" by linarith
      then have "(sums_vec c)[nat i := acc] ! j = sums_vec c ! j" by simp
      moreover from that have "int j < i + 1 \<or> e \<le> int j" by auto
      then have "sums_vec c' ! j = (sums_vec c)[nat i := acc] ! j"
        using ih(4) by blast
      ultimately show ?thesis by simp
    qed
    with ih show ?thesis by simp
  qed
qed

lemma calculateSumsRange_frame:
  assumes "calculateSumsRange s e t c = Inr c'"
  shows "vectors c' = vectors c" and "length (sums_vec c') = length (sums_vec c)"
    and "\<forall>j. int j < s \<or> e \<le> int j \<longrightarrow> sums_vec c' ! j = sums_vec c ! j"
proof -
  from assms obtain c1 where c1: "sums_loop s e c = Inr c1"
    and "vectors c' = vectors c1" "sums_vec c' = sums_vec c1"
    by (auto simp: calculateSumsRange_def split: sum.splits)
  with sums_loop_frame [OF c1]
  show "vectors c' = vectors c" and "length (sums_vec c') = length (sums_vec c)"
    and "\<forall>j. int j < s \<or> e \<le> int j \<longrightarrow> sums_vec c' ! j = sums_vec c ! j"
    by simp_all
qed

text \<open>
  C1: for every dataset and every number of threads from 1, after the parallel phase
  of a trial every entry of \<^verbatim>\<open>sums\<close> is the mathematical sum of the elements of its
  vector, as the linear accumulation into a \<^verbatim>\<open>long long\<close> computes it.
\<close>

theorem results_exact_after_trial:
  assumes "calc_inv c" and "1 \<le> w" and "w \<le> INT_MAX"
  shows "\<exists>t c'. measureExecutionTime w elapsed c = Inr (t, c') \<and>
           vectors c' = vectors c \<and>
           length (sums_vec c') = length (vectors c) \<and>
           (\<forall>i < length (vectors c).
              accumulate 0 (vectors c ! i) = Inr (sums_vec c' ! i) \<and>
              sint (sums_vec c' ! i) = sum_list (map sint (vectors c ! i)))"
proof -
  have "\<forall>v \<in> set (vectors c). int (length v) \<le> INT_MAX"
    using assms(1) by (simp add: calc_inv_def)
  then have "accumulate 0 (vectors c ! i) = Inr (wsum (vectors c ! i)) \<and>
             sint (wsum (vectors c ! i)) = sum_list (map sint (vectors c ! i))"
    if "i < length (vectors c)" for i
    using that accumulate_int_range [of "vectors c ! i"] by simp
  then show ?thesis
    by (intro exI [of _ "real_of_int elapsed / 1000"] exI [of _ "after_measure w c"])
      (simp add: measureExecutionTime_result [OF assms] after_measure_def)
qed

theorem results_exact_after_trial_witness:
  "calc_inv \<lparr>vectors = [[1, 2, 3], [4, 5, 6]], sums_vec = [0, 0], cout = []\<rparr> \<and>
   (\<exists>t c'. measureExecutionTime 2 0
              \<lparr>vectors = [[1, 2, 3], [4, 5, 6]], sums_vec = [0, 0], cout = []\<rparr> = Inr (t, c') \<and>
            sint (sums_vec c' ! 0) = 6 \<and> sint (sums_vec c' ! 1) = 15)"
proof -
  let ?c = "\<lparr>vectors = [[1, 2, 3], [4, 5, 6]], sums_vec = [0, 0], cout = []\<rparr>"
  have inv: "calc_inv ?c" by (simp add: calc_inv_def INT_MAX_def)
  have w: "(1 :: int) \<le> 2" "2 \<le> INT_MAX" by (simp_all add: INT_MAX_def)
  from results_exact_after_trial [OF inv w, of 0]
  obtain t c' where "measureExecutionTime 2 0 ?c = Inr (t, c')"
    and "\<forall>i < 2. sint (sums_vec c' ! i) = sum_list (map sint (vectors ?c ! i))"
    by auto
  then have "measureExecutionTime 2 0 ?c = Inr (t, c') \<and>
             sint (sums_vec c' ! 0) = 6 \<and> sint (sums_vec c' ! 1) = 15"
    by simp
  with inv show ?thesis by blast
qed

text \<open>
  C3: on the same dataset, the parallel phase with one thread and with any number
  \<open>k\<close> of threads from 1 leave the same \<^verbatim>\<open>sums\<close>.
\<close>

theorem results_partition_count_invariant:
  assumes "calc_inv c" and "1 \<le> k" and "k \<le> INT_MAX"
  shows "\<exists>t1 c1 tk ck.
           measureExecutionTime 1 elapsed1 c = Inr (t1, c1) \<and>
           measureExecutionTime k elapsedk c = Inr (tk, ck) \<and>
           sums_vec c1 = sums_vec ck"
proof -
  have one: "(1 :: int) \<le> 1" "1 \<le> INT_MAX" by (simp_all add: INT_MAX_def)
  show ?thesis
    by (intro exI [of _ "real_of_int elapsed1 / 1000"] exI [of _ "after_measure 1 c"]
          exI [of _ "real_of_int elapsedk / 1000"] exI [of _ "after_measure k c"])
      (simp add: measureExecutionTime_result [OF assms]
         measureExecutionTime_result [OF assms(1) one] after_measure_def)
qed

theorem results_partition_count_invariant_witness:
  "calc_inv \<lparr>vectors = [[1, 2, 3], [4, 5, 6], [- 7]], sums_vec = [0, 0, 0], cout = []\<rparr> \<and>
   (\<exists>t1 c1 tk ck.
      measureExecutionTime 1 0 \<lparr>vectors = [[1, 2, 3], [4, 5, 6], [- 7]],
        sums_vec = [0, 0, 0], cout = []\<rparr> = Inr (t1, c1) \<and>
      measureExecutionTime 2 0 \<lparr>vectors = [[1, 2, 3], [4, 5, 6], [- 7]],
        sums_vec = [0, 0, 0], cout = []\<rparr> = Inr (tk, ck) \<and>
      sums_vec c1 = sums_vec ck)"
proof -
  let ?c = "\<lparr>vectors = [[1, 2, 3], [4, 5, 6], [- 7]], sums_vec = [0, 0, 0], cout = []\<rparr>"
  have inv: "calc_inv ?c" by (simp add: calc_inv_def INT_MAX_def)
  have w: "(1 :: int) \<le> 2" "2 \<le> INT_MAX" by (simp_all add: INT_MAX_def)
  from results_partition_count_invariant [OF inv w, of 0 0] inv show ?thesis by blast
qed

text \<open>
  C5: a worker run on the range from \<open>s\<close> to \<open>e\<close> (excluded), with
  \<open>0 \<le> s \<le> e \<le> N\<close>, returns, leaves \<^verbatim>\<open>vectors\<close> as it was and changes no entry of
  \<^verbatim>\<open>sums\<close> outside of its range.
\<close>

theorem worker_writes_only_its_range:
  assumes "0 \<le> s" and "s \<le> e" and "e \<le> int (length (vectors c))"
  shows "(calc_inv c \<longrightarrow> (\<exists>c'. calculateSumsRange s e t c = Inr c')) \<and>
         (\<forall>c'. calculateSumsRange s e t c = Inr c' \<longrightarrow>
            vectors c' = vectors c \<and>
            length (sums_vec c') = length (sums_vec c) \<and>
            (\<forall>j < length (sums_vec c). int j < s \<or> e \<le> int j \<longrightarrow>
               sums_vec c' ! j = sums_vec c ! j))"
proof -
  have "\<exists>c'. calculateSumsRange s e t c = Inr c'" if "calc_inv c"
    using calculateSumsRange_fill [OF assms, of t] that calc_inv_accumulate [OF that]
    by (simp add: calc_inv_def)
  then show ?thesis
    using calculateSumsRange_frame [of s e t c] by blast
qed

theorem worker_writes_only_its_range_witness:
  "\<exists>c'. calculateSumsRange 1 2 7
          \<lparr>vectors = [[1, 2, 3], [4, 5, 6], [- 7]], sums_vec = [10, 20, 30], cout = []\<rparr> = Inr c' \<and>
        vectors c' = [[1, 2, 3], [4, 5, 6], [- 7]] \<and>
        sums_vec c' ! 0 = 10 \<and> sums_vec c' ! 2 = 30"
proof -
  let ?c = "\<lparr>vectors = [[1, 2, 3], [4, 5, 6], [- 7]], sums_vec = [10, 20, 30], cout = []\<rparr>"
  have inv: "calc_inv ?c" by (simp add: calc_inv_def INT_MAX_def)
  have b: "(0 :: int) \<le> 1" "(1 :: int) \<le> 2" "2 \<le> int (length (vectors ?c))" by simp_all
  from worker_writes_only_its_range [OF b, of 7] inv
  obtain c' where c': "calculateSumsRange 1 2 7 ?c = Inr c'" by blast
  with worker_writes_only_its_range [OF b, of 7]
  have v: "vectors c' = vectors ?c"
    and f: "\<forall>j < length (sums_vec ?c). int j < 1 \<or> 2 \<le> int j \<longrightarrow> sums_vec c' ! j = sums_vec ?c ! j"
    by blast+
  from f [rule_format, of 0] f [rule_format, of 2] v
  have "vectors c' = [[1, 2, 3], [4, 5, 6], [- 7]] \<and> sums_vec c' ! 0 = 10 \<and> sums_vec c' ! 2 = 30"
    by simp
  with c' show ?thesis by blast
qed

section \<open>The ranges of the partitioner\<close>

lemma length_ranges_of [simp]: "length (ranges_of q r i w) = w - i"
  by (simp add: ranges_of_def)

lemma nth_ranges_of:
  "k < w \<Longrightarrow> ranges_of q r 0 w ! k
     = (range_start q r (int k), range_start q r (int k + 1), int k + 1)"
  by (simp add: ranges_of_def)

lemma range_start_strict:
  assumes "1 \<le> q" and "j < k"
  shows "range_start q r j < range_start q r k"
proof -
  have "range_start q r j < range_start q r (j + 1)"
    using assms(1) by (simp add: range_start_step)
  also have "\<dots> \<le> range_start q r k"
    using assms by (intro range_start_mono) simp_all
  finally show ?thesis .
qed

lemma sum_sizes_ranges_of:
  "sum_list (map range_size (ranges_of q r 0 w)) = range_start q r (int w) - range_start q r 0"
proof (induction w)
  case 0
  then show ?case by (simp add: ranges_of_def)
next
  case (Suc w)
  have "ranges_of q r 0 (Suc w)
          = ranges_of q r 0 w @ [(range_start q r (int w), range_start q r (int w + 1), int w + 1)]"
    by (simp add: ranges_of_def)
  with Suc show ?case by (simp add: range_size_def add.commute)
qed

lemma set_ranges_of:
  "set (ranges_of q r 0 w)
     = (\<lambda>k. (range_start q r (int k), range_start q r (int k + 1), int k + 1)) ` {0..<w}"
  by (simp add: ranges_of_def)

lemma union_ranges_of:
  assumes "0 \<le> q"
  shows "(\<Union>a \<in> set (ranges_of q r 0 w). range_set a)
           = {range_start q r 0..<range_start q r (int w)}"
proof (induction w)
  case 0
  then show ?case by (simp add: ranges_of_def)
next
  case (Suc w)
  have split: "ranges_of q r 0 (Suc w)
          = ranges_of q r 0 w @ [(range_start q r (int w), range_start q r (int w + 1), int w + 1)]"
    by (simp add: ranges_of_def)
  have le1: "range_start q r 0 \<le> range_start q r (int w)"
    using assms by (intro range_start_mono) simp_all
  have le2: "range_start q r (int w) \<le> range_start q r (int w + 1)"
    using assms by (rule range_start_le_next)
  have "(\<Union>a \<in> set (ranges_of q r 0 (Suc w)). range_set a)
          = {range_start q r 0..<range_start q r (int w)}
            \<union> {range_start q r (int w)..<range_start q r (int w + 1)}"
    unfolding split using Suc by (simp add: range_set_def Un_commute)
  also have "\<dots> = {range_start q r 0..<range_start q r (int w + 1)}"
    using le1 le2 by (rule ivl_disj_un_two)
  finally show ?case by (simp add: add.commute)
qed

lemma disjoint_ranges_of:
  assumes "0 \<le> q" and "j < k"
  shows "{range_start q r (int j)..<range_start q r (int j + 1)}
           \<inter> {range_start q r (int k)..<range_start q r (int k + 1)} = {}"
proof -
  have "range_start q r (int j + 1) \<le> range_start q r (int k)"
    using assms by (intro range_start_mono) simp_all
  then show ?thesis by auto
qed

text \<open>
  C2: for \<open>1 \<le> W \<le> N\<close> the partitioner returns exactly \<open>W\<close> ranges; range number
  \<open>k\<close> (from 0) has \<open>N div W + 1\<close> indices when \<open>k < N mod W\<close> and \<open>N div W\<close> otherwise;
  the first range starts at 0, each next one where the one before ends, the last one
  ends at \<open>N\<close>; the starts increase strictly; the ranges are pairwise disjoint; their
  sizes add up to \<open>N\<close> and their union is \<open>[0, N)\<close>.
\<close>

theorem partitioner_balanced_cover:
  assumes "1 \<le> w" and "w \<le> int n" and "int n \<le> INT_MAX"
  shows "\<exists>ts. partitioner n w = Inr ts \<and>
           length ts = nat w \<and>
           (\<forall>k < nat w. range_size (ts ! k)
              = (if int k < int n mod w then int n div w + 1 else int n div w)) \<and>
           range_begin (ts ! 0) = 0 \<and>
           (\<forall>k. Suc k < nat w \<longrightarrow> range_begin (ts ! Suc k) = range_end (ts ! k)) \<and>
           range_end (ts ! (nat w - 1)) = int n \<and>
           (\<forall>j k. j < k \<and> k < nat w \<longrightarrow> range_begin (ts ! j) < range_begin (ts ! k)) \<and>
           (\<forall>j k. j < nat w \<and> k < nat w \<and> j \<noteq> k \<longrightarrow>
              range_set (ts ! j) \<inter> range_set (ts ! k) = {}) \<and>
           sum_list (map range_size ts) = int n \<and>
           (\<Union>a \<in> set ts. range_set a) = {0..<int n}"
proof -
  let ?q = "int n div w" and ?r = "int n mod w"
  let ?ts = "ranges_of ?q ?r 0 (nat w)"
  have w: "w \<le> INT_MAX" using assms by linarith
  have p: "partitioner n w = Inr ?ts"
    using assms(1) w assms(3) by (rule partitioner_closed)
  have "0 < ?q" using assms(1,2) by (simp add: pos_imp_zdiv_pos_iff)
  then have q1: "1 \<le> ?q" and q0: "0 \<le> ?q" by simp_all
  have r0: "0 \<le> ?r" using assms(1) by simp
  have full: "range_start ?q ?r (int (nat w)) = int n"
    using assms(1) range_start_full [of "int n" w] by simp
  have zero: "range_start ?q ?r 0 = 0" using r0 by simp
  have nth: "?ts ! k = (range_start ?q ?r (int k), range_start ?q ?r (int k + 1), int k + 1)"
    if "k < nat w" for k
    using that by (rule nth_ranges_of)
  have len: "length ?ts = nat w" by simp
  have sizes: "\<forall>k < nat w. range_size (?ts ! k) = (if int k < ?r then ?q + 1 else ?q)"
    by (simp add: nth range_size_def range_start_step)
  have first: "range_begin (?ts ! 0) = 0"
    using assms(1) nth [of 0] zero by (simp add: range_begin_def)
  have contiguous: "\<forall>k. Suc k < nat w \<longrightarrow> range_begin (?ts ! Suc k) = range_end (?ts ! k)"
    by (simp add: nth range_begin_def range_end_def add.commute)
  have "int (nat w - 1) + 1 = int (nat w)" using assms(1) by simp
  then have last: "range_end (?ts ! (nat w - 1)) = int n"
    using assms(1) nth [of "nat w - 1"] full by (simp add: range_end_def)
  have ordered: "\<forall>j k. j < k \<and> k < nat w \<longrightarrow> range_begin (?ts ! j) < range_begin (?ts ! k)"
    using q1 by (simp add: nth range_begin_def range_start_strict)
  have disjoint_jk: "range_set (?ts ! j) \<inter> range_set (?ts ! k) = {}"
    if "j < nat w" "k < nat w" "j \<noteq> k" for j k
  proof (cases "j < k")
    case True
    then show ?thesis
      using that disjoint_ranges_of [OF q0 True, of ?r] by (simp add: nth range_set_def)
  next
    case False
    with that have "k < j" by simp
    then show ?thesis
      using that disjoint_ranges_of [OF q0 \<open>k < j\<close>, of ?r]
      by (simp add: nth range_set_def Int_commute)
  qed
  have total: "sum_list (map range_size ?ts) = int n"
    using sum_sizes_ranges_of [of ?q ?r "nat w"] full zero by simp
  have union: "(\<Union>a \<in> set ?ts. range_set a) = {0..<int n}"
    using union_ranges_of [OF q0, of ?r "nat w"] full zero by simp
  have disjoint: "\<forall>j k. j < nat w \<and> k < nat w \<and> j \<noteq> k \<longrightarrow>
              range_set (?ts ! j) \<inter> range_set (?ts ! k) = {}"
    using disjoint_jk by simp
  show ?thesis
    by (intro exI [of _ ?ts] conjI; fact)
qed

theorem partitioner_balanced_cover_witness:
  "\<exists>ts. partitioner 10 3 = Inr ts \<and> length ts = 3 \<and>
        range_size (ts ! 0) = 4 \<and> range_size (ts ! 1) = 3 \<and> range_size (ts ! 2) = 3 \<and>
        range_begin (ts ! 0) = 0 \<and> range_end (ts ! 2) = 10 \<and>
        sum_list (map range_size ts) = 10 \<and>
        (\<Union>a \<in> set ts. range_set a) = {0..<10}"
proof -
  have h: "(1 :: int) \<le> 3" "(3 :: int) \<le> int 10" "int 10 \<le> INT_MAX"
    by (simp_all add: INT_MAX_def)
  from partitioner_balanced_cover [OF h] obtain ts where
    p: "partitioner 10 3 = Inr ts" and len: "length ts = nat 3"
    and sizes: "\<forall>k < nat 3. range_size (ts ! k)
              = (if int k < int 10 mod 3 then int 10 div 3 + 1 else int 10 div 3)"
    and first: "range_begin (ts ! 0) = 0"
    and last: "range_end (ts ! (nat 3 - 1)) = int 10"
    and total: "sum_list (map range_size ts) = int 10"
    and union: "(\<Union>a \<in> set ts. range_set a) = {0..<int 10}"
    by - (erule exE, elim conjE, rule that; assumption)
  have two: "nat 3 - 1 = 2" by simp
  from sizes [rule_format, of 0] sizes [rule_format, of 1] sizes [rule_format, of 2]
  have "range_size (ts ! 0) = 4" "range_size (ts ! 1) = 3" "range_size (ts ! 2) = 3"
    by simp_all
  with p len first last total union show ?thesis
    unfolding two by (intro exI [of _ ts]) simp
qed

section \<open>More threads than vectors\<close>

lemma exact_sums_after_measure:
  assumes "calc_inv c" and "i < length (vectors c)"
  shows "accumulate 0 (vectors c ! i) = Inr (sums_vec (after_measure w c) ! i)"
    and "sint (sums_vec (after_measure w c) ! i) = sum_list (map sint (vectors c ! i))"
proof -
  have "int (length (vectors c ! i)) \<le> INT_MAX"
    using assms by (simp add: calc_inv_def)
  from accumulate_int_range [OF this] assms(2)
  show "accumulate 0 (vectors c ! i) = Inr (sums_vec (after_measure w c) ! i)"
    and "sint (sums_vec (after_measure w c) ! i) = sum_list (map sint (vectors c ! i))"
    by (simp_all add: after_measure_def)
qed

text \<open>
  C10: with more threads than vectors, \<open>W > N \<ge> 1\<close>, the loop still makes \<open>W\<close> ranges:
  range number \<open>k < N\<close> holds the index \<open>k\<close> alone, the others are empty, together they
  are \<open>[0, N)\<close>, each index lies in exactly one of them, and the parallel phase returns
  with every sum exact.
\<close>

theorem more_threads_than_vectors:
  assumes "calc_inv c" and "1 \<le> length (vectors c)"
    and "int (length (vectors c)) < w" and "w \<le> INT_MAX"
  shows "\<exists>ts t c'.
           partitioner (length (vectors c)) w = Inr ts \<and>
           length ts = nat w \<and>
           (\<forall>k < length (vectors c). range_set (ts ! k) = {int k}) \<and>
           (\<forall>k. length (vectors c) \<le> k \<and> k < nat w \<longrightarrow> range_set (ts ! k) = {}) \<and>
           (\<Union>a \<in> set ts. range_set a) = {0..<int (length (vectors c))} \<and>
           (\<forall>i < length (vectors c). \<exists>!k. k < nat w \<and> int i \<in> range_set (ts ! k)) \<and>
           measureExecutionTime w elapsed c = Inr (t, c') \<and>
           length (sums_vec c') = length (vectors c) \<and>
           (\<forall>i < length (vectors c).
              accumulate 0 (vectors c ! i) = Inr (sums_vec c' ! i) \<and>
              sint (sums_vec c' ! i) = sum_list (map sint (vectors c ! i)))"
proof -
  let ?n = "length (vectors c)"
  let ?ts = "ranges_of 0 (int ?n) 0 (nat w)"
  have w1: "1 \<le> w" using assms(2,3) by linarith
  have n: "int ?n \<le> INT_MAX" using assms(1) by (simp add: calc_inv_def)
  have q: "int ?n div w = 0" and r: "int ?n mod w = int ?n"
    using assms(3) by (simp_all add: div_pos_pos_trivial)
  have p: "partitioner ?n w = Inr ?ts"
    using partitioner_closed [OF w1 assms(4) n] by (simp add: q r)
  have nth: "range_set (?ts ! k) = {min (int k) (int ?n)..<min (int k + 1) (int ?n)}"
    if "k < nat w" for k
    unfolding nth_ranges_of [OF that] by (simp add: range_set_def range_start_def)
  have len: "length ?ts = nat w" by simp
  have single: "\<forall>k < ?n. range_set (?ts ! k) = {int k}"
  proof (intro allI impI)
    fix k assume k: "k < ?n"
    then have "k < nat w" using assms(3) by linarith
    moreover have "min (int k) (int ?n) = int k" "min (int k + 1) (int ?n) = int k + 1"
      using k by simp_all
    ultimately have "range_set (?ts ! k) = {int k..<int k + 1}" by (simp add: nth)
    also have "\<dots> = {int k}" by auto
    finally show "range_set (?ts ! k) = {int k}" .
  qed
  have empty: "\<forall>k. ?n \<le> k \<and> k < nat w \<longrightarrow> range_set (?ts ! k) = {}"
  proof (intro allI impI)
    fix k assume k: "?n \<le> k \<and> k < nat w"
    then have "min (int k) (int ?n) = int ?n" "min (int k + 1) (int ?n) = int ?n"
      by simp_all
    with k show "range_set (?ts ! k) = {}" by (simp add: nth)
  qed
  have union: "(\<Union>a \<in> set ?ts. range_set a) = {0..<int ?n}"
  proof -
    have "range_start 0 (int ?n) (int (nat w)) = int ?n"
      using assms(3) by (simp add: range_start_def)
    then show ?thesis
      using union_ranges_of [of 0 "int ?n" "nat w"] by simp
  qed
  have once: "\<forall>i < ?n. \<exists>!k. k < nat w \<and> int i \<in> range_set (?ts ! k)"
  proof (intro allI impI)
    fix i assume i: "i < ?n"
    then have iw: "i < nat w" using assms(3) by linarith
    show "\<exists>!k. k < nat w \<and> int i \<in> range_set (?ts ! k)"
    proof (rule ex1I [of _ i])
      show "i < nat w \<and> int i \<in> range_set (?ts ! i)"
        using iw i single by simp
    next
      fix k assume k: "k < nat w \<and> int i \<in> range_set (?ts ! k)"
      then have "int i \<in> {min (int k) (int ?n)..<min (int k + 1) (int ?n)}"
        using nth [of k] by simp
      then have "min (int k) (int ?n) \<le> int i" "int i < min (int k + 1) (int ?n)"
        by simp_all
      then show "k = i" by linarith
    qed
  qed
  have m: "measureExecutionTime w elapsed c
             = Inr (real_of_int elapsed / 1000, after_measure w c)"
    using assms(1) w1 assms(4) by (rule measureExecutionTime_result)
  have slen: "length (sums_vec (after_measure w c)) = ?n"
    by (simp add: after_measure_def)
  have exact: "\<forall>i < ?n.
      accumulate 0 (vectors c ! i) = Inr (sums_vec (after_measure w c) ! i) \<and>
      sint (sums_vec (after_measure w c) ! i) = sum_list (map sint (vectors c ! i))"
    using exact_sums_after_measure [OF assms(1)] by simp
  show ?thesis
    by (intro exI [of _ ?ts] exI [of _ "real_of_int elapsed / 1000"]
          exI [of _ "after_measure w c"] conjI; fact)
qed

theorem more_threads_than_vectors_witness:
  "calc_inv \<lparr>vectors = [[1, 2, 3], [4, 5, 6]], sums_vec = [0, 0], cout = []\<rparr> \<and>
   (\<exists>ts t c'.
      partitioner 2 3 = Inr ts \<and> length ts = 3 \<and>
      range_set (ts ! 0) = {0} \<and> range_set (ts ! 1) = {1} \<and> range_set (ts ! 2) = {} \<and>
      measureExecutionTime 3 0
        \<lparr>vectors = [[1, 2, 3], [4, 5, 6]], sums_vec = [0, 0], cout = []\<rparr> = Inr (t, c') \<and>
      sint (sums_vec c' ! 0) = 6 \<and> sint (sums_vec c' ! 1) = 15)"
proof -
  let ?c = "\<lparr>vectors = [[1, 2, 3], [4, 5, 6]], sums_vec = [0, 0], cout = []\<rparr>"
  have inv: "calc_inv ?c" by (simp add: calc_inv_def INT_MAX_def)
  have h: "1 \<le> length (vectors ?c)" "int (length (vectors ?c)) < 3" "(3 :: int) \<le> INT_MAX"
    by (simp_all add: INT_MAX_def)
  from more_threads_than_vectors [OF inv h, of 0] obtain ts t c' where
    p: "partitioner (length (vectors ?c)) 3 = Inr ts" and len: "length ts = nat 3"
    and single: "\<forall>k < length (vectors ?c). range_set (ts ! k) = {int k}"
    and empty: "\<forall>k. length (vectors ?c) \<le> k \<and> k < nat 3 \<longrightarrow> range_set (ts ! k) = {}"
    and m: "measureExecutionTime 3 0 ?c = Inr (t, c')"
    and exact: "\<forall>i < length (vectors ?c).
              accumulate 0 (vectors ?c ! i) = Inr (sums_vec c' ! i) \<and>
              sint (sums_vec c' ! i) = sum_list (map sint (vectors ?c ! i))"
    by - (elim exE conjE, rule that; assumption)
  from single [rule_format, of 0] single [rule_format, of 1] empty [rule_format, of 2]
  have r: "range_set (ts ! 0) = {0}" "range_set (ts ! 1) = {1}" "range_set (ts ! 2) = {}"
    by simp_all
  from exact [rule_format, of 0] exact [rule_format, of 1]
  have s: "sint (sums_vec c' ! 0) = 6" "sint (sums_vec c' ! 1) = 15" by simp_all
  have two: "length (vectors ?c) = 2" by simp
  have p': "partitioner 2 3 = Inr ts" "length ts = 3"
    using p len unfolding two by simp_all
  show ?thesis
    using inv p' r m s by (intro conjI exI [of _ ts] exI [of _ t] exI [of _ c']) simp_all
qed

section \<open>The range of the accumulator\<close>

lemma sum_list_sint_bounds:
  assumes "\<forall>x \<in> set v. lo \<le> sint x \<and> sint x \<le> hi"
  shows "lo * int (length v) \<le> sum_list (map sint v)"
    and "sum_list (map sint v) \<le> hi * int (length v)"
  using assms by (induction v) (auto simp: algebra_simps)

lemma accumulate_zeros: "accumulate 0 (replicate m 0) = Inr 0"
  by (induction m) (simp_all add: add_ll_def LLONG_MIN_def LLONG_MAX_def)

lemma single_vector_inv: "calc_inv \<lparr>vectors = [[x]], sums_vec = [s0], cout = out\<rparr>"
  by (simp add: calc_inv_def INT_MAX_def)

text \<open>
  C6: on a vector of 100 elements, each in \<open>[-1000, 1000]\<close>, no addition of the worker's
  loop overflows: after any number \<open>k\<close> of iterations the accumulator holds the
  mathematical sum of the first \<open>k\<close> elements, of absolute value at most 100000, within
  the range of \<^verbatim>\<open>long long\<close>, and the loop goes on from it. A dataset of one vector of
  one element, summed by one thread, gives that element; a vector of zeros sums to 0.
\<close>

theorem accumulator_never_overflows:
  "(length v = 100 \<and> (\<forall>x \<in> set v. - 1000 \<le> sint x \<and> sint x \<le> 1000) \<longrightarrow>
      (\<forall>k \<le> 100. \<exists>s.
         accumulate 0 (take k v) = Inr s \<and>
         accumulate 0 v = accumulate s (drop k v) \<and>
         sint s = sum_list (map sint (take k v)) \<and>
         \<bar>sint s\<bar> \<le> 100000 \<and> LLONG_MIN \<le> sint s \<and> sint s \<le> LLONG_MAX)) \<and>
   (\<exists>t c'. measureExecutionTime 1 elapsed \<lparr>vectors = [[x]], sums_vec = [s0], cout = out\<rparr>
              = Inr (t, c') \<and>
            sums_vec c' = [scast x] \<and> sint (sums_vec c' ! 0) = sint x) \<and>
   accumulate 0 (replicate m 0) = Inr 0"
proof (intro conjI impI allI)
  fix k :: nat
  assume v: "length v = 100 \<and> (\<forall>x \<in> set v. - 1000 \<le> sint x \<and> sint x \<le> 1000)"
    and k: "k \<le> 100"
  let ?p = "take k v"
  have len: "length ?p = k" using v k by simp
  have elems: "\<forall>x \<in> set ?p. - 1000 \<le> sint x \<and> sint x \<le> 1000"
    using v by (auto dest: in_set_takeD)
  have "\<exists>s. accumulate 0 ?p = Inr s \<and> sint s = sint (0 :: int64) + sum_list (map sint ?p)"
    using elems
  proof (rule accumulate_bounded)
    show "LLONG_MIN \<le> sint (0 :: int64) + - 1000 * int (length ?p)"
      using k by (simp add: len LLONG_MIN_def)
    show "sint (0 :: int64) + 1000 * int (length ?p) \<le> LLONG_MAX"
      using k by (simp add: len LLONG_MAX_def)
  qed simp_all
  then obtain s where s: "accumulate 0 ?p = Inr s" "sint s = sum_list (map sint ?p)"
    by auto
  have "accumulate 0 (?p @ drop k v) = accumulate s (drop k v)"
    unfolding accumulate_append s(1) by simp
  then have cont: "accumulate 0 v = accumulate s (drop k v)" by simp
  from sum_list_sint_bounds [OF elems] len k
  have "- 100000 \<le> sum_list (map sint ?p)" "sum_list (map sint ?p) \<le> 100000"
    by simp_all
  then have bound: "\<bar>sint s\<bar> \<le> 100000" "LLONG_MIN \<le> sint s" "sint s \<le> LLONG_MAX"
    using s(2) by (simp_all add: LLONG_MIN_def LLONG_MAX_def)
  show "\<exists>s. accumulate 0 ?p = Inr s \<and> accumulate 0 v = accumulate s (drop k v) \<and>
          sint s = sum_list (map sint ?p) \<and>
          \<bar>sint s\<bar> \<le> 100000 \<and> LLONG_MIN \<le> sint s \<and> sint s \<le> LLONG_MAX"
    using s cont bound by (intro exI [of _ s]) simp
next
  let ?c = "\<lparr>vectors = [[x]], sums_vec = [s0], cout = out\<rparr>"
  have one: "(1 :: int) \<le> 1" "1 \<le> INT_MAX" by (simp_all add: INT_MAX_def)
  have m: "measureExecutionTime 1 elapsed ?c = Inr (real_of_int elapsed / 1000, after_measure 1 ?c)"
    using single_vector_inv one by (rule measureExecutionTime_result)
  have r: "sums_vec (after_measure 1 ?c) = [scast x]"
    by (simp add: after_measure_def wsum_def)
  show "\<exists>t c'. measureExecutionTime 1 elapsed ?c = Inr (t, c') \<and>
            sums_vec c' = [scast x] \<and> sint (sums_vec c' ! 0) = sint x"
    using m r
    by (intro exI [of _ "real_of_int elapsed / 1000"] exI [of _ "after_measure 1 ?c"])
      (simp add: sint_scast_32_64)
next
  show "accumulate 0 (replicate m 0) = Inr 0" by (rule accumulate_zeros)
qed

theorem accumulator_never_overflows_witness:
  "\<exists>s. accumulate 0 (replicate 100 1000) = Inr s \<and> sint s = 100000"
proof -
  let ?v = "replicate 100 (1000 :: int32)"
  have h: "length ?v = 100 \<and> (\<forall>x \<in> set ?v. - 1000 \<le> sint x \<and> sint x \<le> 1000)"
    by simp
  from accumulator_never_overflows [of ?v 0 0 0 "[]" 0, THEN conjunct1, THEN mp, OF h]
  have "\<forall>k \<le> 100. \<exists>s. accumulate 0 (take k ?v) = Inr s \<and>
         accumulate 0 ?v = accumulate s (drop k ?v) \<and>
         sint s = sum_list (map sint (take k ?v)) \<and>
         \<bar>sint s\<bar> \<le> 100000 \<and> LLONG_MIN \<le> sint s \<and> sint s \<le> LLONG_MAX"
    .
  from this [rule_format, of 100]
  obtain s where "accumulate 0 (take 100 ?v) = Inr s"
    and "sint s = sum_list (map sint (take 100 ?v))"
    by auto
  then have "accumulate 0 ?v = Inr s \<and> sint s = 100000"
    by (simp add: sum_list_replicate)
  then show ?thesis by blast
qed

section \<open>Validation\<close>

lemma dis_range:
  assumes "a \<le> b"
  shows "a \<le> dis a b r" and "dis a b r \<le> b"
proof -
  have "0 < nat (b - a + 1)" using assms by simp
  then have "r mod nat (b - a + 1) < nat (b - a + 1)" by (rule mod_less_divisor)
  then have "int (r mod nat (b - a + 1)) < b - a + 1" using assms by linarith
  then show "a \<le> dis a b r" and "dis a b r \<le> b" by (simp_all add: dis_def)
qed

lemma validate_bound:
  assumes "1 \<le> n" and "int n \<le> INT_MAX"
  shows "int_of_size_t ((n + 2 ^ 64 - 1) mod 2 ^ 64) = int n - 1"
proof -
  from assms(1) obtain m where m: "n = Suc m" by (cases n) auto
  have small: "m < 2 ^ 64" using assms(2) m by (simp add: INT_MAX_def)
  have "n + 2 ^ 64 - 1 = m + 2 ^ 64" using m by simp
  then have "(n + 2 ^ 64 - 1) mod 2 ^ 64 = m mod 2 ^ 64" by (metis mod_add_self2)
  also have "\<dots> = m" using small by simp
  finally have "(n + 2 ^ 64 - 1) mod 2 ^ 64 = m" .
  moreover have "int m \<le> INT_MAX" using assms(2) m by simp
  ultimately show ?thesis using m by (simp add: int_of_size_t_small)
qed

lemma validate_bound_empty: "int_of_size_t ((0 + 2 ^ 64 - 1) mod 2 ^ 64) = - 1"
  by (simp add: int_of_size_t_def)

lemma matches_iff:
  assumes "calc_inv c" and "0 \<le> idx" and "idx < int (length (vectors c))"
  shows "matches c idx \<longleftrightarrow> sums_vec c ! nat idx = wsum (vectors c ! nat idx)"
proof -
  have "nat idx < length (vectors c)" using assms(2,3) by linarith
  then have "accumulate 0 (vectors c ! nat idx) = Inr (wsum (vectors c ! nat idx))"
    using calc_inv_accumulate [OF assms(1)] by simp
  then show ?thesis by (auto simp: matches_def)
qed

text \<open>The validation loop stops at the first sampled index whose sum does not match.\<close>

lemma validate_loop_result:
  assumes "calc_inv c" and "0 \<le> b" and "b < int (length (vectors c))"
  shows "validate_loop test 0 b draws c =
           (case find (\<lambda>t. \<not> matches c (dis 0 b (draws t))) [test..<10] of
              None \<Rightarrow> Inr (True, c)
            | Some t \<Rightarrow> Inr (False, c\<lparr>cout := cout c @ [Validation_Error (dis 0 b (draws t))]\<rparr>))"
proof (induction "10 - test" arbitrary: test)
  case 0
  then have "\<not> test < 10" by simp
  then show ?case by (subst validate_loop.simps) simp
next
  case (Suc n)
  then have t: "test < 10" and n: "n = 10 - Suc test" by simp_all
  let ?idx = "dis 0 b (draws test)"
  have idx: "0 \<le> ?idx" "?idx < int (length (vectors c))"
    using dis_range [OF assms(2), of "draws test"] assms(3) by simp_all
  have len: "length (sums_vec c) = length (vectors c)"
    using assms(1) by (simp add: calc_inv_def)
  have acc: "accumulate 0 (vectors c ! nat ?idx) = Inr (wsum (vectors c ! nat ?idx))"
    using calc_inv_accumulate [OF assms(1)] idx by simp
  have m: "matches c ?idx \<longleftrightarrow> sums_vec c ! nat ?idx = wsum (vectors c ! nat ?idx)"
    using assms(1) idx by (rule matches_iff)
  have upt: "[test..<10] = test # [Suc test..<10]" using t by (simp add: upt_conv_Cons)
  show ?case
  proof (cases "matches c ?idx")
    case True
    then have "validate_loop test 0 b draws c = validate_loop (Suc test) 0 b draws c"
      using t idx len acc m by (subst validate_loop.simps) (simp add: Let_def)
    then show ?thesis
      using Suc.hyps(1) [OF n] True unfolding upt by simp
  next
    case False
    then have "validate_loop test 0 b draws c =
                 Inr (False, c\<lparr>cout := cout c @ [Validation_Error ?idx]\<rparr>)"
      using t idx len acc m by (subst validate_loop.simps) (simp add: Let_def)
    then show ?thesis
      using False unfolding upt by simp
  qed
qed

lemma validateResults_result:
  assumes "calc_inv c" and "vectors c \<noteq> []"
  shows "validateResults draws c =
           (case find (\<lambda>t. \<not> matches c (sample_idx c draws t)) [0..<10] of
              None \<Rightarrow> Inr (True, c)
            | Some t \<Rightarrow>
                Inr (False, c\<lparr>cout := cout c @ [Validation_Error (sample_idx c draws t)]\<rparr>))"
proof -
  let ?n = "length (vectors c)"
  have n: "1 \<le> ?n" "int ?n \<le> INT_MAX"
    using assms by (simp_all add: calc_inv_def Suc_le_eq)
  have b: "int_of_size_t ((?n + 2 ^ 64 - 1) mod 2 ^ 64) = int ?n - 1"
    using n by (rule validate_bound)
  have "validate_loop 0 0 (int ?n - 1) draws c =
           (case find (\<lambda>t. \<not> matches c (dis 0 (int ?n - 1) (draws t))) [0..<10] of
              None \<Rightarrow> Inr (True, c)
            | Some t \<Rightarrow> Inr (False,
                c\<lparr>cout := cout c @ [Validation_Error (dis 0 (int ?n - 1) (draws t))]\<rparr>))"
    using assms by (intro validate_loop_result) simp_all
  then show ?thesis
    unfolding validateResults_def sample_idx_def b using assms(2) by (simp add: Let_def)
qed

lemma sample_idx_range:
  assumes "calc_inv c" and "vectors c \<noteq> []"
  shows "0 \<le> sample_idx c draws t" and "sample_idx c draws t < int (length (vectors c))"
proof -
  let ?n = "length (vectors c)"
  have n: "1 \<le> ?n" "int ?n \<le> INT_MAX"
    using assms by (simp_all add: calc_inv_def Suc_le_eq)
  have b: "int_of_size_t ((?n + 2 ^ 64 - 1) mod 2 ^ 64) = int ?n - 1"
    using n by (rule validate_bound)
  have "(0 :: int) \<le> int ?n - 1" using n(1) by linarith
  from dis_range [OF this, of "draws t"]
  show "0 \<le> sample_idx c draws t" and "sample_idx c draws t < int ?n"
    unfolding sample_idx_def b by simp_all
qed

lemma validateResults_empty:
  assumes "vectors c = []"
  shows "validateResults draws c = Inl Undefined_Behaviour"
  unfolding validateResults_def assms list.size validate_bound_empty by simp

lemma find_upt_None: "find P [0..<n] = None \<longleftrightarrow> (\<forall>t < n. \<not> P t)"
  by (auto simp: find_None_iff)

lemma find_upt_Some:
  assumes "find P [0..<n] = Some t"
  shows "t < n" and "P t" and "\<forall>u < t. \<not> P u"
proof -
  from assms obtain i where i: "i < length [0..<n]" "P ([0..<n] ! i)" "t = [0..<n] ! i"
    "\<forall>j < i. \<not> P ([0..<n] ! j)"
    unfolding find_Some_iff by blast
  then have ti: "t = i" and "i < n" by simp_all
  with i show "t < n" and "P t" and "\<forall>u < t. \<not> P u" by simp_all
qed

text \<open>
  C4: the validator samples 10 indices (test \<open>t\<close> samples \<open>sample_idx c draws t\<close>; the
  draws are independent, so an index may come twice), recomputes the sum of each
  sampled vector and returns true exactly when all 10 stored sums are the recomputed
  ones. At the first test that does not match it prints the index and returns false;
  nothing else of the calculator changes and no fault is raised. Whatever it returns,
  the trial has appended its time to \<^verbatim>\<open>execution_times\<close> and prints it.
\<close>

theorem validator_reports_first_mismatch:
  assumes "calc_inv c" and "vectors c \<noteq> []"
  shows "\<exists>ok c' c''.
           validateResults (val_draws e (length execution_times)) c = Inr (ok, c') \<and>
           (ok \<longleftrightarrow> (\<forall>t < 10. matches c (sample_idx c (val_draws e (length execution_times)) t))) \<and>
           (ok \<longrightarrow> c' = c) \<and>
           (\<not> ok \<longrightarrow>
              (\<exists>t < 10. \<not> matches c (sample_idx c (val_draws e (length execution_times)) t) \<and>
                 (\<forall>u < t. matches c (sample_idx c (val_draws e (length execution_times)) u)) \<and>
                 c' = c\<lparr>cout := cout c @
                        [Validation_Error (sample_idx c (val_draws e (length execution_times)) t)]\<rparr>)) \<and>
           record_and_validate e time (execution_times, c) = Inr (execution_times @ [time], c'') \<and>
           vectors c'' = vectors c \<and> sums_vec c'' = sums_vec c \<and>
           cout c'' = cout c' @ (if ok then [Results_Correct] else []) @ [Time_Line time]"
proof -
  let ?d = "val_draws e (length execution_times)"
  let ?P = "\<lambda>t. \<not> matches c (sample_idx c ?d t)"
  note v = validateResults_result [OF assms, of ?d]
  show ?thesis
  proof (cases "find ?P [0..<10]")
    case None
    then have all: "\<forall>t < 10. matches c (sample_idx c ?d t)"
      by (simp add: find_upt_None)
    have r: "validateResults ?d c = Inr (True, c)" using v None by simp
    let ?c'' = "c\<lparr>cout := cout c @ [Results_Correct, Time_Line time]\<rparr>"
    have "record_and_validate e time (execution_times, c) = Inr (execution_times @ [time], ?c'')"
      by (simp add: record_and_validate_def r)
    then show ?thesis
      using r all by (intro exI [of _ True] exI [of _ c] exI [of _ ?c'']) simp
  next
    case (Some t)
    note f = find_upt_Some [OF Some]
    let ?c' = "c\<lparr>cout := cout c @ [Validation_Error (sample_idx c ?d t)]\<rparr>"
    let ?c'' = "?c'\<lparr>cout := cout ?c' @ [Time_Line time]\<rparr>"
    have r: "validateResults ?d c = Inr (False, ?c')" using v Some by simp
    have rv: "record_and_validate e time (execution_times, c) = Inr (execution_times @ [time], ?c'')"
      by (simp add: record_and_validate_def r)
    have first: "\<exists>t < 10. \<not> matches c (sample_idx c ?d t) \<and>
                 (\<forall>u < t. matches c (sample_idx c ?d u)) \<and>
                 ?c' = c\<lparr>cout := cout c @ [Validation_Error (sample_idx c ?d t)]\<rparr>"
      using f by (intro exI [of _ t]) simp
    have notall: "\<not> (\<forall>t < 10. matches c (sample_idx c ?d t))" using f by blast
    show ?thesis
      using r rv first notall
      by (intro exI [of _ False] exI [of _ ?c'] exI [of _ ?c'']) simp
  qed
qed

lemma corrupted_inv: "calc_inv corrupted" "vectors corrupted \<noteq> []"
  by (simp_all add: corrupted_def calc_inv_def INT_MAX_def)

lemma corrupted_samples:
  "sample_idx corrupted (\<lambda>t. t) 0 = 0" "sample_idx corrupted (\<lambda>t. t) 1 = 1"
  by (simp_all add: sample_idx_def corrupted_def int_of_size_t_def dis_def)

lemma corrupted_matches: "matches corrupted 0" "\<not> matches corrupted 1"
  by (simp_all add: matches_def corrupted_def add_ll_def LLONG_MIN_def LLONG_MAX_def)

theorem validator_reports_first_mismatch_witness:
  "\<exists>c''. validateResults (\<lambda>t. t) corrupted
            = Inr (False, corrupted\<lparr>cout := [Validation_Error 1]\<rparr>) \<and>
          record_and_validate counting_env 5 ([], corrupted) = Inr ([5], c'') \<and>
          cout c'' = [Validation_Error 1, Time_Line 5]"
proof -
  let ?d = "\<lambda>t :: nat. t"
  have d: "val_draws counting_env (length ([] :: real list)) = ?d"
    by (simp add: counting_env_def)
  from validator_reports_first_mismatch [OF corrupted_inv, of counting_env "[]" 5]
  obtain ok c' c'' where
    r: "validateResults ?d corrupted = Inr (ok, c')"
    and ok: "ok \<longleftrightarrow> (\<forall>t < 10. matches corrupted (sample_idx corrupted ?d t))"
    and first: "\<not> ok \<longrightarrow>
              (\<exists>t < 10. \<not> matches corrupted (sample_idx corrupted ?d t) \<and>
                 (\<forall>u < t. matches corrupted (sample_idx corrupted ?d u)) \<and>
                 c' = corrupted\<lparr>cout := cout corrupted @
                        [Validation_Error (sample_idx corrupted ?d t)]\<rparr>)"
    and rv: "record_and_validate counting_env 5 ([], corrupted) = Inr ([] @ [5], c'')"
    and out: "cout c'' = cout c' @ (if ok then [Results_Correct] else []) @ [Time_Line 5]"
    unfolding d by - (elim exE conjE, rule that; assumption)
  have m0: "matches corrupted (sample_idx corrupted ?d 0)"
    unfolding corrupted_samples by (rule corrupted_matches)
  have m1: "\<not> matches corrupted (sample_idx corrupted ?d 1)"
    unfolding corrupted_samples by (rule corrupted_matches)
  have "\<not> (\<forall>t < 10. matches corrupted (sample_idx corrupted ?d t))"
  proof
    assume "\<forall>t < 10. matches corrupted (sample_idx corrupted ?d t)"
    from this [rule_format, of 1] m1 show False by simp
  qed
  then have nok: "\<not> ok" using ok by simp
  with first obtain t where t: "\<not> matches corrupted (sample_idx corrupted ?d t)"
    "\<forall>u < t. matches corrupted (sample_idx corrupted ?d u)"
    "c' = corrupted\<lparr>cout := cout corrupted @ [Validation_Error (sample_idx corrupted ?d t)]\<rparr>"
    by blast
  have "t \<noteq> 0"
  proof
    assume "t = 0"
    with t(1) m0 show False by simp
  qed
  moreover have "\<not> 1 < t"
    using t(2) [rule_format, of 1] m1 by auto
  ultimately have "t = 1" by simp
  have c': "c' = corrupted\<lparr>cout := [Validation_Error 1]\<rparr>"
    unfolding t(3) \<open>t = 1\<close> corrupted_samples by (simp add: corrupted_def)
  show ?thesis
    using r rv out nok c' by (intro exI [of _ c'']) simp
qed

text \<open>
  C9: when \<^verbatim>\<open>vectors\<close> is not empty, every index the validator samples lies in
  \<open>[0, N)\<close>, within \<^verbatim>\<open>vectors\<close> and within \<^verbatim>\<open>sums\<close>, and the validator returns without
  fault; when \<^verbatim>\<open>vectors\<close> is empty the bounds of the distribution are 0 and -1 and
  the behaviour is undefined.
\<close>

theorem validator_needs_nonempty_dataset:
  "(calc_inv c \<and> vectors c \<noteq> [] \<longrightarrow>
      (\<forall>t. 0 \<le> sample_idx c draws t \<and>
            nat (sample_idx c draws t) < length (vectors c) \<and>
            nat (sample_idx c draws t) < length (sums_vec c)) \<and>
      (\<exists>r. validateResults draws c = Inr r)) \<and>
   (vectors c = [] \<longrightarrow>
      int_of_size_t ((length (vectors c) + 2 ^ 64 - 1) mod 2 ^ 64) = - 1 \<and>
      validateResults draws c = Inl Undefined_Behaviour)"
proof (intro conjI impI allI)
  assume "vectors c = []"
  show "int_of_size_t ((length (vectors c) + 2 ^ 64 - 1) mod 2 ^ 64) = - 1"
    unfolding \<open>vectors c = []\<close> list.size by (rule validate_bound_empty)
  show "validateResults draws c = Inl Undefined_Behaviour"
    using \<open>vectors c = []\<close> by (rule validateResults_empty)
next
  fix t
  assume inv: "calc_inv c \<and> vectors c \<noteq> []"
  then have a: "calc_inv c" "vectors c \<noteq> []" by simp_all
  have len: "length (sums_vec c) = length (vectors c)" using a(1) by (simp add: calc_inv_def)
  from sample_idx_range [OF a, of draws t]
  show "0 \<le> sample_idx c draws t"
    and "nat (sample_idx c draws t) < length (vectors c)"
    and "nat (sample_idx c draws t) < length (sums_vec c)"
    unfolding len by linarith+
next
  assume inv: "calc_inv c \<and> vectors c \<noteq> []"
  then have a: "calc_inv c" "vectors c \<noteq> []" by simp_all
  show "\<exists>r. validateResults draws c = Inr r"
    unfolding validateResults_result [OF a] by (cases "find (\<lambda>t. \<not> matches c (sample_idx c draws t)) [0..<10]") auto
qed

theorem validator_needs_nonempty_dataset_witness:
  "(\<exists>r. validateResults (\<lambda>t. 7 * t) corrupted = Inr r) \<and>
   sample_idx corrupted (\<lambda>t. 7 * t) 3 = 1 \<and>
   validateResults (\<lambda>t. 7 * t) \<lparr>vectors = [], sums_vec = [], cout = []\<rparr>
     = Inl Undefined_Behaviour"
proof -
  let ?e = "\<lparr>vectors = [], sums_vec = [], cout = []\<rparr>"
  note th = validator_needs_nonempty_dataset
  have h: "calc_inv corrupted \<and> vectors corrupted \<noteq> []" using corrupted_inv by simp
  have "\<exists>r. validateResults (\<lambda>t. 7 * t) corrupted = Inr r"
    using th [of corrupted "\<lambda>t. 7 * t", THEN conjunct1, THEN mp, OF h] by simp
  moreover have "sample_idx corrupted (\<lambda>t. 7 * t) 3 = 1"
    by (simp add: sample_idx_def corrupted_def int_of_size_t_def dis_def)
  moreover have "validateResults (\<lambda>t. 7 * t) ?e = Inl Undefined_Behaviour"
    using th [of ?e "\<lambda>t. 7 * t", THEN conjunct2] by simp
  ultimately show ?thesis by simp
qed

section \<open>Generation and trials\<close>

lemma generateVectors_result:
  assumes "0 \<le> n" and "0 \<le> m" and "lo \<le> hi"
  shows "generateVectors n m lo hi None draws c =
           Inr (c\<lparr>vectors := generated_vectors (nat n) (nat m) lo hi draws,
                  sums_vec := take (nat n) (sums_vec c) @ replicate (nat n - length (sums_vec c)) 0\<rparr>)"
  using assms by (simp add: generateVectors_def generated_vectors_def)

lemma length_generated_vectors [simp]: "length (generated_vectors n m lo hi draws) = n"
  by (simp add: generated_vectors_def)

lemma generated_vectors_elem:
  assumes "v \<in> set (generated_vectors n m lo hi draws)"
    and "lo \<le> hi" and "INT_MIN \<le> lo" and "hi \<le> INT_MAX"
  shows "length v = m" and "\<forall>x \<in> set v. lo \<le> sint x \<and> sint x \<le> hi"
proof -
  from assms(1) obtain i where
    v: "v = map (\<lambda>j. word_of_int (dis lo hi (draws (i * m + j)))) [0..<m]"
    by (auto simp: generated_vectors_def)
  then show "length v = m" by simp
  have "lo \<le> sint (word_of_int (dis lo hi r) :: int32) \<and>
        sint (word_of_int (dis lo hi r) :: int32) \<le> hi" for r
  proof -
    from dis_range [OF assms(2), of r] assms(3,4)
    have "- (2 ^ 31) \<le> dis lo hi r" "dis lo hi r < 2 ^ 31"
      by (simp_all add: INT_MIN_def INT_MAX_def)
    then have "sint (word_of_int (dis lo hi r) :: int32) = dis lo hi r"
      by (simp add: sint_sbintrunc' signed_take_bit_int_eq_self)
    with dis_range [OF assms(2), of r] show ?thesis by simp
  qed
  with v show "\<forall>x \<in> set v. lo \<le> sint x \<and> sint x \<le> hi" by auto
qed

lemma matches_after_measure:
  assumes "calc_inv c" and "0 \<le> idx" and "idx < int (length (vectors c))"
  shows "matches (after_measure w c) idx"
proof -
  have inv: "calc_inv (after_measure w c)"
    using assms(1) by (simp add: calc_inv_def after_measure_def)
  have "matches (after_measure w c) idx \<longleftrightarrow>
          sums_vec (after_measure w c) ! nat idx = wsum (vectors (after_measure w c) ! nat idx)"
    using inv assms(2,3) by (intro matches_iff) (simp_all add: after_measure_def)
  moreover have "nat idx < length (vectors c)" using assms(2,3) by linarith
  ultimately show ?thesis by (simp add: after_measure_def)
qed

lemma trial_result:
  assumes "calc_inv c" and "vectors c \<noteq> []" and "1 \<le> w" and "w \<le> INT_MAX"
  shows "trial e w (execution_times, c) =
           Inr (execution_times @ [real_of_int (elapsed_us e (length execution_times)) / 1000],
                after_trial w (real_of_int (elapsed_us e (length execution_times)) / 1000) c)"
proof -
  let ?t = "real_of_int (elapsed_us e (length execution_times)) / 1000"
  let ?c2 = "c\<lparr>cout := cout c @ [Test_Header w], sums_vec := replicate (length (sums_vec c)) 0\<rparr>"
  let ?c3 = "after_measure w ?c2"
  let ?d = "val_draws e (length execution_times)"
  have inv2: "calc_inv ?c2" using assms(1) by (simp add: calc_inv_def)
  have m: "measureExecutionTime w (elapsed_us e (length execution_times)) ?c2 = Inr (?t, ?c3)"
    using inv2 assms(3,4) by (rule measureExecutionTime_result)
  have inv3: "calc_inv ?c3" and ne3: "vectors ?c3 \<noteq> []"
    using assms(1,2) by (simp_all add: calc_inv_def after_measure_def)
  have "matches ?c3 (sample_idx ?c3 ?d t)" for t
  proof (rule matches_after_measure [OF inv2])
    from sample_idx_range [OF inv3 ne3, of ?d t]
    show "0 \<le> sample_idx ?c3 ?d t" "sample_idx ?c3 ?d t < int (length (vectors ?c2))"
      by (simp_all add: after_measure_def)
  qed
  then have "find (\<lambda>t. \<not> matches ?c3 (sample_idx ?c3 ?d t)) [0..<10] = None"
    by (simp add: find_None_iff)
  then have v: "validateResults ?d ?c3 = Inr (True, ?c3)"
    using validateResults_result [OF inv3 ne3, of ?d] by simp
  have "record_and_validate e ?t (execution_times, ?c3) =
          Inr (execution_times @ [?t], ?c3\<lparr>cout := cout ?c3 @ [Results_Correct, Time_Line ?t]\<rparr>)"
    by (simp add: record_and_validate_def v)
  then show ?thesis
    using m by (simp add: trial_def after_trial_def Let_def)
qed

lemma after_trial_simps [simp]:
  "vectors (after_trial w time c) = vectors c"
  "sums_vec (after_trial w time c) = map wsum (vectors c)"
  by (simp_all add: after_trial_def after_measure_def Let_def)

lemma calc_inv_after_trial: "calc_inv c \<Longrightarrow> calc_inv (after_trial w time c)"
  by (simp add: calc_inv_def)

section \<open>Statistics\<close>

lemma total_loop_bounded:
  assumes "\<forall>x \<in> set xs. lo \<le> sint x \<and> sint x \<le> hi"
    and "lo \<le> 0" and "0 \<le> hi"
    and "LLONG_MIN \<le> sint acc + lo * int (length xs)"
    and "sint acc + hi * int (length xs) \<le> LLONG_MAX"
  shows "\<exists>r. total_loop acc xs = Inr r \<and> sint r = sint acc + sum_list (map sint xs)"
  using assms
proof (induction xs arbitrary: acc)
  case Nil
  then show ?case by simp
next
  case (Cons x xs)
  have x: "lo \<le> sint x" "sint x \<le> hi" using Cons.prems(1) by auto
  have len: "lo * int (length (x # xs)) = lo + lo * int (length xs)"
    "hi * int (length (x # xs)) = hi + hi * int (length xs)"
    by (simp_all add: algebra_simps)
  have lo_v: "lo * int (length xs) \<le> 0" using \<open>lo \<le> 0\<close> by (simp add: mult_nonpos_nonneg)
  have hi_v: "0 \<le> hi * int (length xs)" using \<open>0 \<le> hi\<close> by simp
  have rng: "LLONG_MIN \<le> sint acc + sint x" "sint acc + sint x \<le> LLONG_MAX"
    using Cons.prems(4,5) x lo_v hi_v unfolding len by linarith+
  then have step: "add_ll acc x = Inr (acc + x)"
    by (simp add: add_ll_def)
  have sx: "sint (acc + x) = sint acc + sint x"
    using rng sint_add_64 [of acc x] by (simp add: LLONG_MIN_def LLONG_MAX_def)
  have "\<exists>r. total_loop (acc + x) xs = Inr r \<and> sint r = sint (acc + x) + sum_list (map sint xs)"
  proof (rule Cons.IH)
    show "\<forall>x \<in> set xs. lo \<le> sint x \<and> sint x \<le> hi" using Cons.prems(1) by simp
    show "lo \<le> 0" "0 \<le> hi" by fact+
    show "LLONG_MIN \<le> sint (acc + x) + lo * int (length xs)"
      using Cons.prems(4) x unfolding len sx by linarith
    show "sint (acc + x) + hi * int (length xs) \<le> LLONG_MAX"
      using Cons.prems(5) x unfolding len sx by linarith
  qed
  then show ?case using step sx by auto
qed

lemma sint_min_element: "sint (min_element x xs) = Min (sint ` set (x # xs))"
proof (induction xs arbitrary: x)
  case Nil
  then show ?case by simp
next
  case (Cons y ys)
  have "sint (if sint y < sint x then y else x) = min (sint x) (sint y)" by (simp add: min_def)
  then have "sint (min_element x (y # ys)) = Min (insert (min (sint x) (sint y)) (sint ` set ys))"
    using Cons.IH [of "if sint y < sint x then y else x"] by simp
  also have "\<dots> = Min (sint ` set (x # y # ys))"
    by (cases "ys = []") (simp_all add: min.assoc)
  finally show ?case .
qed

lemma sint_max_element: "sint (max_element x xs) = Max (sint ` set (x # xs))"
proof (induction xs arbitrary: x)
  case Nil
  then show ?case by simp
next
  case (Cons y ys)
  have "sint (if sint x < sint y then y else x) = max (sint x) (sint y)" by (simp add: max_def)
  then have "sint (max_element x (y # ys)) = Max (insert (max (sint x) (sint y)) (sint ` set ys))"
    using Cons.IH [of "if sint x < sint y then y else x"] by simp
  also have "\<dots> = Max (sint ` set (x # y # ys))"
    by (cases "ys = []") (simp_all add: max.assoc)
  finally show ?case .
qed

lemma statistics_result:
  assumes "sums_vec c \<noteq> []" and "int (length (sums_vec c)) \<le> INT_MAX"
    and "\<forall>x \<in> set (sums_vec c). - (2 ^ 31) \<le> sint x \<and> sint x \<le> 2 ^ 31"
  shows "statistics c = Inr (c\<lparr>cout := cout c @ statistics_lines (sums_vec c)\<rparr>)"
proof -
  from assms(1) obtain x xs where xs: "sums_vec c = x # xs" by (cases "sums_vec c") auto
  have "\<exists>r. total_loop 0 (sums_vec c) = Inr r
          \<and> sint r = sint (0 :: int64) + sum_list (map sint (sums_vec c))"
    using assms(3)
  proof (rule total_loop_bounded)
    show "LLONG_MIN \<le> sint (0 :: int64) + - (2 ^ 31) * int (length (sums_vec c))"
      using assms(2) by (simp add: LLONG_MIN_def INT_MAX_def)
    show "sint (0 :: int64) + 2 ^ 31 * int (length (sums_vec c)) \<le> LLONG_MAX"
      using assms(2) by (simp add: LLONG_MAX_def INT_MAX_def)
  qed simp_all
  then obtain r where r: "total_loop 0 (sums_vec c) = Inr r"
    "sint r = sum_list (map sint (sums_vec c))" by auto
  have ten: "nat (min 10 (int_of_size_t (length (sums_vec c)))) = min 10 (length (sums_vec c))"
    using assms(2) by (simp add: int_of_size_t_small)
  have mn: "sint (min_element x xs) = Min (sint ` set (sums_vec c))"
    and mx: "sint (max_element x xs) = Max (sint ` set (sums_vec c))"
    unfolding xs by (rule sint_min_element, rule sint_max_element)
  show ?thesis
    unfolding statistics_def statistics_lines_def ten
    using r mn mx by (simp add: xs Let_def)
qed

section \<open>The whole run\<close>

lemma generated_run:
  "generateVectors 30000 100 (- 1000) 1000 None (gen_draws e)
     \<lparr>vectors = [], sums_vec = [], cout = [Banner, Generating]\<rparr> = Inr (generated e)"
proof -
  have "generateVectors 30000 100 (- 1000) 1000 None (gen_draws e)
          \<lparr>vectors = [], sums_vec = [], cout = [Banner, Generating]\<rparr>
        = Inr (\<lparr>vectors = [], sums_vec = [], cout = [Banner, Generating]\<rparr>
            \<lparr>vectors := generated_vectors (nat 30000) (nat 100) (- 1000) 1000 (gen_draws e),
             sums_vec := take (nat 30000)
                 (sums_vec \<lparr>vectors = [], sums_vec = [], cout = [Banner, Generating]\<rparr>)
               @ replicate (nat 30000
                   - length (sums_vec \<lparr>vectors = [], sums_vec = [], cout = [Banner, Generating]\<rparr>)) 0\<rparr>)"
    by (rule generateVectors_result) simp_all
  then show ?thesis by (simp add: generated_def)
qed

lemma generated_inv: "calc_inv (generated e)" and generated_nonempty: "vectors (generated e) \<noteq> []"
proof -
  have "length v = 100" if "v \<in> set (generated_vectors 30000 100 (- 1000) 1000 (gen_draws e))" for v
    using that by (rule generated_vectors_elem) (simp_all add: INT_MIN_def INT_MAX_def)
  then show "calc_inv (generated e)"
    by (simp add: calc_inv_def generated_def INT_MAX_def)
  have "length (vectors (generated e)) = 30000" by (simp add: generated_def)
  then show "vectors (generated e) \<noteq> []" by auto
qed

lemma generated_sum_bounds:
  assumes "v \<in> set (vectors (generated e))"
  shows "- 100000 \<le> sint (wsum v)" and "sint (wsum v) \<le> 100000"
proof -
  from assms have v: "v \<in> set (generated_vectors 30000 100 (- 1000) 1000 (gen_draws e))"
    by (simp add: generated_def)
  have len: "length v = 100" and el: "\<forall>x \<in> set v. - 1000 \<le> sint x \<and> sint x \<le> 1000"
    using generated_vectors_elem [OF v] by (simp_all add: INT_MIN_def INT_MAX_def)
  have "sint (wsum v) = sum_list (map sint v)"
    by (rule accumulate_int_range) (simp add: len INT_MAX_def)
  with sum_list_sint_bounds [OF el] len
  show "- 100000 \<le> sint (wsum v)" and "sint (wsum v) \<le> 100000" by simp_all
qed

lemma trials_run:
  "trials e thread_counts ([], (generated e)\<lparr>cout := cout (generated e) @ [Generated]\<rparr>)
     = Inr ([time_of e 0, time_of e 1, time_of e 2], after_last_trial e)"
  and first_trials_run:
  "trials e [1, 2] ([], (generated e)\<lparr>cout := cout (generated e) @ [Generated]\<rparr>)
     = Inr ([time_of e 0, time_of e 1], before_last_trial e)"
  and last_trial_run:
  "trial e 4 ([time_of e 0, time_of e 1], before_last_trial e)
     = Inr ([time_of e 0, time_of e 1, time_of e 2], after_last_trial e)"
proof -
  let ?g = "(generated e)\<lparr>cout := cout (generated e) @ [Generated]\<rparr>"
  let ?a1 = "after_trial 1 (time_of e 0) ?g"
  have inv0: "calc_inv ?g" and ne0: "vectors ?g \<noteq> []"
    using generated_inv [of e] generated_nonempty [of e] by (simp_all add: calc_inv_def)
  have inv1: "calc_inv ?a1" and ne1: "vectors ?a1 \<noteq> []"
    using inv0 ne0 by (simp_all add: calc_inv_after_trial)
  have inv2: "calc_inv (before_last_trial e)" and ne2: "vectors (before_last_trial e) \<noteq> []"
    using inv1 ne1 by (simp_all add: before_last_trial_def calc_inv_after_trial)
  have t1: "trial e 1 ([], ?g) = Inr ([time_of e 0], ?a1)"
    using trial_result [OF inv0 ne0, of 1 e "[]"] by (simp add: INT_MAX_def time_of_def)
  have t2: "trial e 2 ([time_of e 0], ?a1) = Inr ([time_of e 0, time_of e 1], before_last_trial e)"
    using trial_result [OF inv1 ne1, of 2 e "[time_of e 0]"]
    by (simp add: INT_MAX_def time_of_def before_last_trial_def)
  show t4: "trial e 4 ([time_of e 0, time_of e 1], before_last_trial e)
     = Inr ([time_of e 0, time_of e 1, time_of e 2], after_last_trial e)"
    using trial_result [OF inv2 ne2, of 4 e "[time_of e 0, time_of e 1]"]
    by (simp add: INT_MAX_def time_of_def after_last_trial_def eval_nat_numeral)
  show "trials e [1, 2] ([], ?g) = Inr ([time_of e 0, time_of e 1], before_last_trial e)"
    by (simp only: trials.simps t1 t2 sum.case)
  show "trials e thread_counts ([], ?g)
          = Inr ([time_of e 0, time_of e 1, time_of e 2], after_last_trial e)"
    by (simp only: thread_counts_def trials.simps t1 t2 t4 sum.case)
qed

lemma after_last_trial_sums:
  "vectors (after_last_trial e) = vectors (generated e)"
  "sums_vec (after_last_trial e) = map wsum (vectors (generated e))"
  by (simp_all add: after_last_trial_def before_last_trial_def)

lemma length_after_last_trial: "length (sums_vec (after_last_trial e)) = 30000"
  by (simp add: after_last_trial_sums) (simp add: generated_def)

lemma runBenchmark_result:
  assumes "alloc_fault e = None"
  shows "runBenchmark e =
           Inr ((after_last_trial e)\<lparr>cout := cout (after_last_trial e) @ table_lines e
                  @ statistics_lines (sums_vec (after_last_trial e))\<rparr>)"
proof -
  let ?c2 = "after_last_trial e"
  let ?c = "?c2\<lparr>cout := cout ?c2 @ table_lines e\<rparr>"
  have rows: "Table_Header # map (\<lambda>i. Table_Row (thread_counts ! i)
                  ([time_of e 0, time_of e 1, time_of e 2] ! i)) [0..<length thread_counts]
              = table_lines e"
    by (simp add: thread_counts_def table_lines_def upt_conv_Cons)
  have "statistics ?c = Inr (?c\<lparr>cout := cout ?c @ statistics_lines (sums_vec ?c)\<rparr>)"
  proof (rule statistics_result)
    have "length (sums_vec ?c) = 30000" by (simp add: length_after_last_trial)
    then show "sums_vec ?c \<noteq> []" "int (length (sums_vec ?c)) \<le> INT_MAX"
      by (auto simp: INT_MAX_def)
    show "\<forall>x \<in> set (sums_vec ?c). - (2 ^ 31) \<le> sint x \<and> sint x \<le> 2 ^ 31"
    proof
      fix x assume "x \<in> set (sums_vec ?c)"
      then obtain v where "v \<in> set (vectors (generated e))" "x = wsum v"
        by (auto simp: after_last_trial_sums)
      with generated_sum_bounds [of v e] show "- (2 ^ 31) \<le> sint x \<and> sint x \<le> 2 ^ 31"
        by simp
    qed
  qed
  then have st: "statistics ?c = Inr (?c2\<lparr>cout := cout ?c2 @ table_lines e
                  @ statistics_lines (sums_vec ?c2)\<rparr>)"
    by simp
  have len: "\<not> length [time_of e 0, time_of e 1, time_of e 2] < length thread_counts"
    by (simp add: thread_counts_def)
  show ?thesis
    unfolding runBenchmark_def Let_def assms generated_run
    by (simp only: sum.case trials_run prod.case len if_False rows st)
qed

lemma after_last_trial_exact:
  assumes "i < 30000"
  shows "accumulate 0 (vectors (after_last_trial e) ! i) = Inr (sums_vec (after_last_trial e) ! i)"
    and "sint (sums_vec (after_last_trial e) ! i)
           = sum_list (map sint (vectors (after_last_trial e) ! i))"
proof -
  have len: "length (vectors (generated e)) = 30000" by (simp add: generated_def)
  with assms have "vectors (generated e) ! i \<in> set (vectors (generated e))" by simp
  then have "int (length (vectors (generated e) ! i)) \<le> INT_MAX"
    using generated_inv [of e] by (simp add: calc_inv_def)
  from accumulate_int_range [OF this] assms len
  show "accumulate 0 (vectors (after_last_trial e) ! i) = Inr (sums_vec (after_last_trial e) ! i)"
    and "sint (sums_vec (after_last_trial e) ! i)
           = sum_list (map sint (vectors (after_last_trial e) ! i))"
    by (simp_all add: after_last_trial_sums)
qed

text \<open>
  C7: when the run completes, the statistics printed after the table are the minimum,
  the maximum and the mean (the sum of all entries divided by their number 30000, as a
  fraction) of \<^verbatim>\<open>sums\<close> as the last trial, the one with 4 threads, left it, followed by
  its first 10 entries; each entry is the sum of its vector. They are computed from
  that state alone, not from the earlier trials.
\<close>

theorem statistics_of_last_trial:
  assumes "alloc_fault e = None"
  shows "\<exists>c1 st execution_times c2 c.
           generateVectors 30000 100 (- 1000) 1000 (alloc_fault e) (gen_draws e)
             \<lparr>vectors = [], sums_vec = [], cout = [Banner, Generating]\<rparr> = Inr c1 \<and>
           trials e [1, 2] ([], c1\<lparr>cout := cout c1 @ [Generated]\<rparr>) = Inr st \<and>
           trial e 4 st = Inr (execution_times, c2) \<and>
           runBenchmark e = Inr c \<and>
           length (sums_vec c2) = 30000 \<and>
           (\<forall>i < 30000.
              accumulate 0 (vectors c2 ! i) = Inr (sums_vec c2 ! i) \<and>
              sint (sums_vec c2 ! i) = sum_list (map sint (vectors c2 ! i))) \<and>
           cout c = cout c2
             @ [Table_Header, Table_Row 1 (execution_times ! 0),
                Table_Row 2 (execution_times ! 1), Table_Row 4 (execution_times ! 2)]
             @ [Stats_Header,
                Min_Sum (Min (sint ` set (sums_vec c2))),
                Max_Sum (Max (sint ` set (sums_vec c2))),
                Avg_Sum (real_of_int (sum_list (map sint (sums_vec c2))) / 30000),
                Examples_Header]
             @ map (\<lambda>i. Vector_Sum (int i) (sint (sums_vec c2 ! i))) [0..<10]"
proof -
  let ?c2 = "after_last_trial e"
  let ?ts = "[time_of e 0, time_of e 1, time_of e 2]"
  let ?c = "?c2\<lparr>cout := cout ?c2 @ table_lines e @ statistics_lines (sums_vec ?c2)\<rparr>"
  have g: "generateVectors 30000 100 (- 1000) 1000 (alloc_fault e) (gen_draws e)
             \<lparr>vectors = [], sums_vec = [], cout = [Banner, Generating]\<rparr> = Inr (generated e)"
    unfolding assms by (rule generated_run)
  have exact: "\<forall>i < 30000.
              accumulate 0 (vectors ?c2 ! i) = Inr (sums_vec ?c2 ! i) \<and>
              sint (sums_vec ?c2 ! i) = sum_list (map sint (vectors ?c2 ! i))"
    using after_last_trial_exact [of _ e] by simp
  have rows: "[Table_Header, Table_Row 1 (?ts ! 0), Table_Row 2 (?ts ! 1), Table_Row 4 (?ts ! 2)]
                = table_lines e"
    by (simp add: table_lines_def)
  have lines: "[Stats_Header,
                Min_Sum (Min (sint ` set (sums_vec ?c2))),
                Max_Sum (Max (sint ` set (sums_vec ?c2))),
                Avg_Sum (real_of_int (sum_list (map sint (sums_vec ?c2))) / 30000),
                Examples_Header]
             @ map (\<lambda>i. Vector_Sum (int i) (sint (sums_vec ?c2 ! i))) [0..<10]
             = statistics_lines (sums_vec ?c2)"
    unfolding statistics_lines_def length_after_last_trial by simp
  have out: "cout ?c = cout ?c2
             @ [Table_Header, Table_Row 1 (?ts ! 0), Table_Row 2 (?ts ! 1), Table_Row 4 (?ts ! 2)]
             @ [Stats_Header,
                Min_Sum (Min (sint ` set (sums_vec ?c2))),
                Max_Sum (Max (sint ` set (sums_vec ?c2))),
                Avg_Sum (real_of_int (sum_list (map sint (sums_vec ?c2))) / 30000),
                Examples_Header]
             @ map (\<lambda>i. Vector_Sum (int i) (sint (sums_vec ?c2 ! i))) [0..<10]"
    unfolding rows lines by simp
  show ?thesis
    by (intro exI [of _ "generated e"] exI [of _ "([time_of e 0, time_of e 1], before_last_trial e)"]
          exI [of _ ?ts] exI [of _ ?c2] exI [of _ ?c] conjI)
      (rule g first_trials_run last_trial_run runBenchmark_result [OF assms]
         length_after_last_trial exact out)+
qed

theorem statistics_of_last_trial_witness:
  "alloc_fault counting_env = None \<and>
   (\<exists>st execution_times c2 c.
      trial counting_env 4 st = Inr (execution_times, c2) \<and>
      runBenchmark counting_env = Inr c \<and>
      length (sums_vec c2) = 30000 \<and>
      cout c = cout c2
        @ [Table_Header, Table_Row 1 (execution_times ! 0),
           Table_Row 2 (execution_times ! 1), Table_Row 4 (execution_times ! 2)]
        @ [Stats_Header,
           Min_Sum (Min (sint ` set (sums_vec c2))),
           Max_Sum (Max (sint ` set (sums_vec c2))),
           Avg_Sum (real_of_int (sum_list (map sint (sums_vec c2))) / 30000),
           Examples_Header]
        @ map (\<lambda>i. Vector_Sum (int i) (sint (sums_vec c2 ! i))) [0..<10])"
proof -
  have h: "alloc_fault counting_env = None" by (simp add: counting_env_def)
  from statistics_of_last_trial [OF h] obtain st execution_times c2 c where
    "trial counting_env 4 st = Inr (execution_times, c2)"
    "runBenchmark counting_env = Inr c"
    "length (sums_vec c2) = 30000"
    "cout c = cout c2
        @ [Table_Header, Table_Row 1 (execution_times ! 0),
           Table_Row 2 (execution_times ! 1), Table_Row 4 (execution_times ! 2)]
        @ [Stats_Header,
           Min_Sum (Min (sint ` set (sums_vec c2))),
           Max_Sum (Max (sint ` set (sums_vec c2))),
           Avg_Sum (real_of_int (sum_list (map sint (sums_vec c2))) / 30000),
           Examples_Header]
        @ map (\<lambda>i. Vector_Sum (int i) (sint (sums_vec c2 ! i))) [0..<10]"
    by - (elim exE conjE, rule that; assumption)
  with h show ?thesis by blast
qed

text \<open>
  C8: when \<^verbatim>\<open>runBenchmark\<close> returns, the process exits with code 0 and writes nothing
  to the error stream; when an exception leaves it, the process exits with code 1 and
  the error stream holds the exception's message. The run returns when no allocation
  of the generation fails, and the exception of a failed allocation leaves it.
\<close>

theorem exit_code_of_main:
  "(\<forall>c. runBenchmark e = Inr c \<longrightarrow> main e = Inr \<lparr>exit_code = 0, cerr = []\<rparr>) \<and>
   (\<forall>msg. runBenchmark e = Inl (Exception msg) \<longrightarrow>
      main e = Inr \<lparr>exit_code = 1, cerr = [Error_Line msg]\<rparr>) \<and>
   (alloc_fault e = None \<longrightarrow> (\<exists>c. runBenchmark e = Inr c)) \<and>
   (\<forall>msg. alloc_fault e = Some msg \<longrightarrow> runBenchmark e = Inl (Exception msg))"
proof (intro conjI allI impI)
  fix c assume "runBenchmark e = Inr c"
  then show "main e = Inr \<lparr>exit_code = 0, cerr = []\<rparr>" by (simp add: main_def)
next
  fix msg assume "runBenchmark e = Inl (Exception msg)"
  then show "main e = Inr \<lparr>exit_code = 1, cerr = [Error_Line msg]\<rparr>" by (simp add: main_def)
next
  assume "alloc_fault e = None"
  then show "\<exists>c. runBenchmark e = Inr c" by (simp add: runBenchmark_result)
next
  fix msg assume "alloc_fault e = Some msg"
  then show "runBenchmark e = Inl (Exception msg)"
    by (simp add: runBenchmark_def generateVectors_def)
qed

theorem exit_code_of_main_witness:
  "main counting_env = Inr \<lparr>exit_code = 0, cerr = []\<rparr> \<and>
   main (counting_env\<lparr>alloc_fault := Some ''std::bad_alloc''\<rparr>)
     = Inr \<lparr>exit_code = 1, cerr = [Error_Line ''std::bad_alloc'']\<rparr>"
proof -
  let ?f = "counting_env\<lparr>alloc_fault := Some ''std::bad_alloc''\<rparr>"
  have "alloc_fault counting_env = None" by (simp add: counting_env_def)
  with exit_code_of_main [of counting_env] obtain c where "runBenchmark counting_env = Inr c"
    by blast
  with exit_code_of_main [of counting_env]
  have ok: "main counting_env = Inr \<lparr>exit_code = 0, cerr = []\<rparr>" by blast
  have "alloc_fault ?f = Some ''std::bad_alloc''" by simp
  with exit_code_of_main [of ?f] have "runBenchmark ?f = Inl (Exception ''std::bad_alloc'')"
    by blast
  with exit_code_of_main [of ?f]
  have "main ?f = Inr \<lparr>exit_code = 1, cerr = [Error_Line ''std::bad_alloc'']\<rparr>" by blast
  with ok show ?thesis by simp
qed

section \<open>The threads in any order\<close>

lemma reachedD:
  assumes "reached ts c0 (ws, c)"
  shows "length ws = length ts"
    and "\<And>k. k < length ts \<Longrightarrow> worker_ok (ts ! k) (ws ! k)"
    and "vectors c = vectors c0"
    and "length (sums_vec c) = length (sums_vec c0)"
    and "\<And>j. j < length (sums_vec c0) \<Longrightarrow>
           sums_vec c ! j = (if passed ws j then wsum (vectors c0 ! j) else sums_vec c0 ! j)"
  using assms unfolding reached_def fst_conv snd_conv by blast+

lemma reachedI:
  assumes "length ws = length ts"
    and "\<And>k. k < length ts \<Longrightarrow> worker_ok (ts ! k) (ws ! k)"
    and "vectors c = vectors c0"
    and "length (sums_vec c) = length (sums_vec c0)"
    and "\<And>j. j < length (sums_vec c0) \<Longrightarrow>
           sums_vec c ! j = (if passed ws j then wsum (vectors c0 ! j) else sums_vec c0 ! j)"
  shows "reached ts c0 (ws, c)"
  using assms unfolding reached_def fst_conv snd_conv by blast

lemma not_passed_spawn: "\<not> passed (spawn ts) j"
  by (auto simp: passed_def spawn_def)

lemma reached_spawn: "reached ts c (spawn ts, c)"
proof (rule reachedI)
  show "worker_ok (ts ! k) (spawn ts ! k)" if "k < length ts" for k
    using that by (simp add: worker_ok_def spawn_def)
qed (simp_all add: not_passed_spawn, simp add: spawn_def)

lemma reached_step:
  assumes "step st st'" and "reached ts c0 st"
  shows "reached ts c0 st'"
  using assms
proof (induction rule: step.induct)
  case (iteration k ws i c acc)
  let ?ws = "ws[k := (ws ! k)\<lparr>next_idx := i + 1\<rparr>]"
  note r = reachedD [OF iteration.prems]
  have k: "k < length ts" using iteration.hyps(1) r(1) by simp
  have acc: "acc = wsum (vectors c0 ! nat i)"
    using accumulate_Inr_wsum [OF iteration.hyps(7)] r(3) by simp
  have nth: "?ws ! k' = (if k' = k then (ws ! k)\<lparr>next_idx := i + 1\<rparr> else ws ! k')"
    if "k' < length ts" for k'
    using that r(1) by (simp add: nth_list_update)
  have first_le: "first_idx (ws ! k) \<le> i"
    using r(2) [OF k] iteration.hyps(3) by (simp add: worker_ok_def)
  show ?case
  proof (rule reachedI)
    show "length ?ws = length ts" using r(1) by simp
    show "vectors (c\<lparr>sums_vec := (sums_vec c)[nat i := acc]\<rparr>) = vectors c0"
      using r(3) by simp
    show "length (sums_vec (c\<lparr>sums_vec := (sums_vec c)[nat i := acc]\<rparr>)) = length (sums_vec c0)"
      using r(4) by simp
  next
    fix k' assume k': "k' < length ts"
    show "worker_ok (ts ! k') (?ws ! k')"
    proof (cases "k' = k")
      case True
      with r(2) [OF k] iteration.hyps(2,3,4) show ?thesis
        unfolding nth [OF k'] by (simp add: worker_ok_def)
    next
      case False
      with r(2) [OF k'] show ?thesis unfolding nth [OF k'] by simp
    qed
  next
    fix j assume j: "j < length (sums_vec c0)"
    show "sums_vec (c\<lparr>sums_vec := (sums_vec c)[nat i := acc]\<rparr>) ! j
            = (if passed ?ws j then wsum (vectors c0 ! j) else sums_vec c0 ! j)"
    proof (cases "j = nat i")
      case True
      have "first_idx (?ws ! k) \<le> int j \<and> int j < next_idx (?ws ! k)"
        using True first_le iteration.hyps(5) unfolding nth [OF k] by simp
      then have "passed ?ws j" using k r(1) unfolding passed_def by auto
      then show ?thesis using True j r(4) acc by simp
    next
      case False
      then have ji: "int j \<noteq> i" using iteration.hyps(5) by auto
      have same: "(first_idx (?ws ! k') \<le> int j \<and> int j < next_idx (?ws ! k'))
                = (first_idx (ws ! k') \<le> int j \<and> int j < next_idx (ws ! k'))"
        if "k' < length ts" for k'
        using ji iteration.hyps(3) unfolding nth [OF that] by auto
      have "passed ?ws j = passed ws j"
        unfolding passed_def using same r(1) by auto
      then show ?thesis using False r(5) [OF j] by simp
    qed
  qed
next
  case (report k ws last_idx c)
  let ?ws = "ws[k := (ws ! k)\<lparr>finished := True\<rparr>]"
  note r = reachedD [OF report.prems]
  have nth: "?ws ! k' = (if k' = k then (ws ! k)\<lparr>finished := True\<rparr> else ws ! k')"
    if "k' < length ts" for k'
    using that r(1) by (simp add: nth_list_update)
  have "(first_idx (?ws ! k') \<le> int j \<and> int j < next_idx (?ws ! k'))
                = (first_idx (ws ! k') \<le> int j \<and> int j < next_idx (ws ! k'))"
    if "k' < length ts" for k' j
    unfolding nth [OF that] by simp
  then have same: "passed ?ws j = passed ws j" for j
    unfolding passed_def using r(1) by auto
  show ?case
  proof (rule reachedI)
    show "length ?ws = length ts" using r(1) by simp
    show "worker_ok (ts ! k') (?ws ! k')" if "k' < length ts" for k'
      using r(2) [OF that] report.hyps(3) unfolding nth [OF that]
      by (cases "k' = k") (auto simp: worker_ok_def)
    show "sums_vec (c\<lparr>cout := cout c @ [Thread_Done (tid (ws ! k)) (first_idx (ws ! k)) last_idx]\<rparr>) ! j
            = (if passed ?ws j then wsum (vectors c0 ! j) else sums_vec c0 ! j)"
      if "j < length (sums_vec c0)" for j
      using r(5) [OF that] unfolding same by simp
  qed (simp_all add: r)
qed

lemma reached_steps:
  assumes "step\<^sup>*\<^sup>* st st'" and "reached ts c0 st"
  shows "reached ts c0 st'"
  using assms by (induction rule: rtranclp_induct) (auto intro: reached_step)

lemma work_left_update:
  assumes "k < length ws" and "f x < f (ws ! k)"
  shows "sum_list (map f (ws[k := x])) < (sum_list (map f ws) :: nat)"
proof -
  have split: "ws = take k ws @ ws ! k # drop (Suc k) ws"
    using assms(1) by (simp add: id_take_nth_drop)
  have upd: "ws[k := x] = take k ws @ x # drop (Suc k) ws"
    using assms(1) by (simp add: upd_conv_take_nth_drop)
  have "sum_list (map f (take k ws @ x # drop (Suc k) ws))
          < sum_list (map f (take k ws @ ws ! k # drop (Suc k) ws))"
    using assms(2) by simp
  then show ?thesis using split upd by metis
qed

lemma step_decreases:
  assumes "step st st'"
  shows "work_left st' < work_left st"
  using assms
proof (induction rule: step.induct)
  case (iteration k ws i c acc)
  then show ?case
    unfolding work_left_def fst_conv by (intro work_left_update) simp_all
next
  case (report k ws last_idx c)
  then show ?case
    unfolding work_left_def fst_conv by (intro work_left_update) simp_all
qed

text \<open>Every run of the threads is finite.\<close>

lemma step_terminates: "wfp (\<lambda>st' st. step st st')"
  by (rule wfp_if_convertible_to_nat [of _ work_left]) (rule step_decreases)

lemma chain_member:
  assumes "chain a ts b" and "x \<in> set ts"
  shows "a \<le> range_begin x" and "range_begin x \<le> range_end x" and "range_end x \<le> b"
  using assms
proof (induction ts arbitrary: a)
  case Nil
  {
    case 1 then show ?case by simp
  next
    case 2 then show ?case by simp
  next
    case 3 then show ?case by simp
  }
next
  case (Cons y ts)
  obtain s e t where y: "y = (s, e, t)" by (cases y) auto
  {
    case 1
    with y have ch: "s = a" "a \<le> e" "chain e ts b" by auto
    show ?case
    proof (cases "x = y")
      case True
      with y ch show ?thesis by (simp add: range_begin_def)
    next
      case False
      with 1 have "x \<in> set ts" by simp
      from Cons.IH(1) [OF ch(3) this] ch show ?thesis by simp
    qed
  next
    case 2
    with y have ch: "s = a" "a \<le> e" "chain e ts b" by auto
    show ?case
    proof (cases "x = y")
      case True
      with y ch show ?thesis by (simp add: range_begin_def range_end_def)
    next
      case False
      with 2 have "x \<in> set ts" by simp
      from Cons.IH(2) [OF ch(3) this] show ?thesis .
    qed
  next
    case 3
    with y have ch: "s = a" "a \<le> e" "chain e ts b" by auto
    show ?case
    proof (cases "x = y")
      case True
      with y chain_le [OF ch(3)] show ?thesis by (simp add: range_end_def)
    next
      case False
      with 3 have "x \<in> set ts" by simp
      from Cons.IH(3) [OF ch(3) this] show ?thesis .
    qed
  }
qed

text \<open>A state the threads have reached is final or has a next step: no thread faults.\<close>

lemma step_progress:
  assumes "calc_inv c0" and "chain 0 ts (int (length (vectors c0)))"
    and "reached ts c0 (ws, c)" and "k < length ws" and "\<not> finished (ws ! k)"
  shows "\<exists>st'. step (ws, c) st'"
proof -
  note r = reachedD [OF assms(3)]
  have k: "k < length ts" using assms(4) r(1) by simp
  then have mem: "ts ! k \<in> set ts" by simp
  note rng = chain_member [OF assms(2) mem]
  have ok: "worker_ok (ts ! k) (ws ! k)" using r(2) [OF k] .
  have n: "int (length (vectors c0)) \<le> INT_MAX"
    and len: "length (sums_vec c0) = length (vectors c0)"
    using assms(1) by (simp_all add: calc_inv_def)
  show ?thesis
  proof (cases "next_idx (ws ! k) < stop_idx (ws ! k)")
    case True
    let ?i = "next_idx (ws ! k)"
    have i0: "0 \<le> ?i" using ok rng(1) by (simp add: worker_ok_def)
    have iN: "?i < int (length (vectors c))"
      using True ok rng(3) r(3) by (simp add: worker_ok_def)
    then have "nat ?i < length (vectors c0)" using i0 r(3) by simp
    then have "accumulate 0 (vectors c ! nat ?i) = Inr (wsum (vectors c ! nat ?i))"
      using calc_inv_accumulate [OF assms(1)] r(3) by simp
    moreover have "?i < int (length (sums_vec c))" using iN r(3,4) len by simp
    ultimately show ?thesis
      using step.iteration [OF assms(4,5) refl True i0 iN] by blast
  next
    case False
    have "0 \<le> stop_idx (ws ! k)" "stop_idx (ws ! k) \<le> INT_MAX"
      using ok rng n by (simp_all add: worker_ok_def)
    then have "chk_int (stop_idx (ws ! k) - 1) = Inr (stop_idx (ws ! k) - 1)"
      by (simp add: chk_int_def INT_MIN_def INT_MAX_def)
    from step.report [OF assms(4,5) False this] show ?thesis by blast
  qed
qed

text \<open>
  Whatever the order in which the scheduler lets the threads of a trial run, once all
  of them have finished \<^verbatim>\<open>sums\<close> is what running them one after the other gives.
\<close>

lemma threads_in_any_order:
  assumes "calc_inv c" and "1 \<le> w" and "w \<le> INT_MAX"
    and "partitioner (length (vectors c)) w = Inr ts"
    and "step\<^sup>*\<^sup>* (spawn ts, c) (ws, c')" and "\<forall>x \<in> set ws. finished x"
  shows "vectors c' = vectors c" and "sums_vec c' = sums_vec (after_measure w c)"
proof -
  let ?n = "int (length (vectors c))"
  have n: "?n \<le> INT_MAX" and len: "length (sums_vec c) = length (vectors c)"
    using assms(1) by (simp_all add: calc_inv_def)
  have ts: "ts = ranges_of (?n div w) (?n mod w) 0 (nat w)"
    using partitioner_closed [OF assms(2,3) n] assms(4) by simp
  have q0: "0 \<le> ?n div w" using assms(2) by (simp add: pos_imp_zdiv_nonneg_iff)
  have "range_start (?n div w) (?n mod w) (int (nat w)) = ?n"
    using assms(2) range_start_full [of ?n w] by simp
  moreover have "range_start (?n div w) (?n mod w) 0 = 0" using assms(2) by simp
  ultimately have union: "(\<Union>a \<in> set ts. range_set a) = {0..<?n}"
    using union_ranges_of [OF q0, of "?n mod w" "nat w"] ts by simp
  note r = reachedD [OF reached_steps [OF assms(5) reached_spawn]]
  show "vectors c' = vectors c" by (rule r(3))
  have "passed ws j" if "j < length (vectors c)" for j
  proof -
    from that have "int j \<in> (\<Union>a \<in> set ts. range_set a)" unfolding union by simp
    then obtain a where a: "a \<in> set ts" "int j \<in> range_set a" by blast
    then obtain k where k: "k < length ts" "a = ts ! k" by (auto simp: in_set_conv_nth)
    have ok: "worker_ok (ts ! k) (ws ! k)" using r(2) [OF k(1)] .
    have "finished (ws ! k)" using assms(6) k(1) r(1) by simp
    with ok a(2) k(2) have "first_idx (ws ! k) \<le> int j \<and> int j < next_idx (ws ! k)"
      by (cases a) (auto simp: worker_ok_def range_set_def range_begin_def range_end_def)
    then show ?thesis unfolding passed_def using k(1) r(1) by auto
  qed
  then have "sums_vec c' ! j = wsum (vectors c ! j)" if "j < length (vectors c)" for j
    using that r(5) [of j] len by simp
  then show "sums_vec c' = sums_vec (after_measure w c)"
    using r(4) len by (intro nth_equalityI) (simp_all add: after_measure_def)
qed

lemma partitioner_chain:
  assumes "1 \<le> w" and "w \<le> INT_MAX" and "int n \<le> INT_MAX"
    and "partitioner n w = Inr ts"
  shows "chain 0 ts (int n)"
proof -
  have ts: "ts = ranges_of (int n div w) (int n mod w) 0 (nat w)"
    using partitioner_closed [OF assms(1,2,3)] assms(4) by simp
  have "chain (range_start (int n div w) (int n mod w) (int 0)) ts
          (range_start (int n div w) (int n mod w) (int (nat w)))"
    unfolding ts using assms(1) by (intro chain_ranges_of) (simp_all add: pos_imp_zdiv_nonneg_iff)
  then show ?thesis
    using assms(1) range_start_full [of "int n" w] by simp
qed

end
